theory Spec2Isabelle
  imports Main "HOL-Library.Multiset"
begin

section \<open>Python values and errors\<close>

text \<open>
  Exceptions of the Python source are values: \<open>ValueError\<close> is what
  \<open>datetime.strptime\<close> raises on a string that does not match the format and what
  \<open>IntervalTree.add\<close> raises on a null interval; \<open>IndexError\<close> is a list index out of
  range. A function that can raise returns \<open>error + 'a\<close>, with \<open>Inl\<close> for the exception.
\<close>

datatype error = ValueError | IndexError

definition resolve_index :: "nat \<Rightarrow> int \<Rightarrow> nat option" where
  \<comment> \<open>The position a Python index denotes in a list of \<open>len\<close> elements: an index
      below zero counts from the end; outside \<open>-len .. len - 1\<close> there is none.\<close>
  "resolve_index len i =
     (if 0 \<le> i \<and> i < int len then Some (nat i)
      else if i < 0 \<and> - int len \<le> i then Some (nat (int len + i))
      else None)"

definition py_index :: "'a list \<Rightarrow> int \<Rightarrow> error + 'a" where
  \<comment> \<open>\<open>xs[i]\<close>\<close>
  "py_index xs i =
     (case resolve_index (length xs) i of None \<Rightarrow> Inl IndexError | Some k \<Rightarrow> Inr (xs ! k))"

definition py_setitem :: "'a list \<Rightarrow> int \<Rightarrow> 'a \<Rightarrow> error + 'a list" where
  \<comment> \<open>\<open>xs[i] = v\<close>, returning the updated list\<close>
  "py_setitem xs i v =
     (case resolve_index (length xs) i of None \<Rightarrow> Inl IndexError
      | Some k \<Rightarrow> Inr (xs[k := v]))"

section \<open>Time normalizer\<close>

text \<open>
  \<open>datetime.strptime(t, "%H:%M:%S").time()\<close>. The directives are the regular expressions
  of the standard library: \<open>%H\<close> is \<open>2[0-3]|[0-1]\d|\d\<close>, \<open>%M\<close> is \<open>[0-5]\d|\d\<close> and
  \<open>%S\<close> is \<open>6[0-1]|[0-5]\d|\d\<close>; each is two digits up to a bound, or else one digit.
  The whole string must be consumed, and a second above 59 is refused when the
  \<open>datetime\<close> is built. Every failure is a \<open>ValueError\<close>.
\<close>

record py_time =
  hour :: int
  minute :: int
  second :: int

definition is_digit :: "char \<Rightarrow> bool" where
  "is_digit c = (c \<in> set ''0123456789'')"

definition digit_val :: "char \<Rightarrow> int" where
  "digit_val c = int (of_char c) - 48"

fun directive :: "int \<Rightarrow> string \<Rightarrow> (int \<times> string) option" where
  "directive hi (c1 # c2 # rest) =
     (if is_digit c1 \<and> is_digit c2 \<and> 10 * digit_val c1 + digit_val c2 \<le> hi
      then Some (10 * digit_val c1 + digit_val c2, rest)
      else if is_digit c1 then Some (digit_val c1, c2 # rest)
      else None)"
| "directive hi [c1] = (if is_digit c1 then Some (digit_val c1, []) else None)"
| "directive hi [] = None"

fun literal_colon :: "string \<Rightarrow> string option" where
  "literal_colon (c # rest) = (if c = CHR '':'' then Some rest else None)"
| "literal_colon [] = None"

definition strptime_HMS :: "string \<Rightarrow> error + py_time" where
  "strptime_HMS s =
     (case directive 23 s of None \<Rightarrow> Inl ValueError | Some (h, s1) \<Rightarrow>
      case literal_colon s1 of None \<Rightarrow> Inl ValueError | Some s2 \<Rightarrow>
      case directive 59 s2 of None \<Rightarrow> Inl ValueError | Some (m, s3) \<Rightarrow>
      case literal_colon s3 of None \<Rightarrow> Inl ValueError | Some s4 \<Rightarrow>
      case directive 61 s4 of None \<Rightarrow> Inl ValueError | Some (sec, s5) \<Rightarrow>
      if s5 \<noteq> [] then Inl ValueError
      else if sec > 59 then Inl ValueError
      else Inr \<lparr>hour = h, minute = m, second = sec\<rparr>)"

definition time_to_minutes :: "string \<Rightarrow> error + int" where
  "time_to_minutes t =
     (case strptime_HMS t of Inl e \<Rightarrow> Inl e | Inr t' \<Rightarrow>
      if hour t' < 8 then Inr (hour t' + 24 + minute t' + 24 * 60)
      else Inr (hour t' * 60 + minute t'))"

section \<open>Activities\<close>

text \<open>
  An activity is a Python dict. Both schedulers read \<open>"id"\<close>, \<open>"start_time"\<close> and
  \<open>"end_time"\<close>; the track packer reads \<open>"schedule_id"\<close> as well and takes the times as
  strings, the weighted scheduler reads \<open>"value"\<close> and takes the times as integers.
  Python's unbounded \<open>int\<close> is \<open>int\<close>. The docstring of the weighted scheduler admits a
  \<open>"value"\<close> that is an \<open>int\<close> or a \<open>float\<close>; the values here are the integer ones, on
  which Python's addition and comparison are exact. Nothing below is said of \<open>float\<close>
  values, whose additions round.
\<close>

record 't activity =
  id_act :: int
  start_time :: 't
  end_time :: 't

record track_activity = "string activity" +
  schedule_id :: int

record valued_activity = "int activity" +
  value_act :: int

definition track_act :: "int \<Rightarrow> int \<Rightarrow> string \<Rightarrow> string \<Rightarrow> track_activity" where
  \<comment> \<open>the dict \<open>{"id": i, "schedule_id": k, "start_time": s, "end_time": e}\<close>\<close>
  "track_act i k s e = \<lparr>id_act = i, start_time = s, end_time = e, schedule_id = k\<rparr>"

definition valued_act :: "int \<Rightarrow> int \<Rightarrow> int \<Rightarrow> int \<Rightarrow> valued_activity" where
  \<comment> \<open>the dict \<open>{"id": i, "start_time": s, "end_time": e, "value": v}\<close>\<close>
  "valued_act i s e v = \<lparr>id_act = i, start_time = s, end_time = e, value_act = v\<rparr>"

section \<open>Interval container\<close>

text \<open>
  The track packer keeps one \<open>IntervalTree\<close> of the \<open>intervaltree\<close> package for each
  \<open>schedule_id\<close>. That package is a dependency, not part of the repository; the three
  operations the packer calls are modelled after it, on the intervals as a list in the order
  of insertion. \<open>overlaps(begin, end)\<close> is \<open>overlaps_range\<close>: false on an empty tree and on a
  null range (\<open>begin >= end\<close>), true when an interval contains \<open>begin\<close>, and otherwise true
  when an interval contains a boundary (a begin or an end of a stored interval) strictly
  between \<open>begin\<close> and \<open>end\<close>. An interval contains a point \<open>p\<close> when
  \<open>begin <= p < end\<close>. \<open>tree[begin:end] = data\<close> is \<open>add\<close>: nothing happens when an equal
  interval is stored already, and a null interval raises \<open>ValueError\<close>.
\<close>

record interval =
  iv_begin :: int
  iv_end :: int
  iv_data :: int

type_synonym interval_tree = "interval list"

definition contains_point :: "interval \<Rightarrow> int \<Rightarrow> bool" where
  "contains_point iv p = (iv_begin iv \<le> p \<and> p < iv_end iv)"

definition overlaps_point :: "interval_tree \<Rightarrow> int \<Rightarrow> bool" where
  "overlaps_point tree p = (if tree = [] then False else list_ex (\<lambda>iv. contains_point iv p) tree)"

definition boundary_table :: "interval_tree \<Rightarrow> int list" where
  "boundary_table tree = concat (map (\<lambda>iv. [iv_begin iv, iv_end iv]) tree)"

definition overlaps_range :: "interval_tree \<Rightarrow> int \<Rightarrow> int \<Rightarrow> bool" where
  "overlaps_range tree b e =
     (if tree = [] then False
      else if b \<ge> e then False
      else if overlaps_point tree b then True
      else list_ex (\<lambda>bound. b < bound \<and> bound < e \<and> overlaps_point tree bound)
             (boundary_table tree))"

definition is_null :: "interval \<Rightarrow> bool" where
  "is_null iv = (iv_begin iv \<ge> iv_end iv)"

definition tree_add :: "interval_tree \<Rightarrow> interval \<Rightarrow> error + interval_tree" where
  "tree_add tree iv =
     (if iv \<in> set tree then Inr tree
      else if is_null iv then Inl ValueError
      else Inr (tree @ [iv]))"

section \<open>Greedy track packer\<close>

text \<open>
  \<open>trees\<close> is a \<open>defaultdict(IntervalTree)\<close>: a dict keeps its keys in the order of their
  first insertion, so it is an association list; \<open>trees[k]\<close> on a key that is missing
  stores an empty tree under it.
\<close>

type_synonym trees = "(int \<times> interval_tree) list"

definition trees_getitem :: "trees \<Rightarrow> int \<Rightarrow> trees \<times> interval_tree" where
  "trees_getitem trees k =
     (case map_of trees k of Some tree \<Rightarrow> (trees, tree) | None \<Rightarrow> (trees @ [(k, [])], []))"

definition trees_store :: "trees \<Rightarrow> int \<Rightarrow> interval_tree \<Rightarrow> trees" where
  \<comment> \<open>the tree under \<open>k\<close> is mutated in place: its entry keeps its position\<close>
  "trees_store trees k tree = map (\<lambda>(k', t). if k' = k then (k', tree) else (k', t)) trees"

definition pack_step :: "trees \<Rightarrow> track_activity \<Rightarrow> error + trees" where
  \<comment> \<open>one iteration of \<open>for act in input\<close>\<close>
  "pack_step trees act =
     (case time_to_minutes (start_time act) of Inl e \<Rightarrow> Inl e | Inr start \<Rightarrow>
      case time_to_minutes (end_time act) of Inl e \<Rightarrow> Inl e | Inr end' \<Rightarrow>
      case trees_getitem trees (schedule_id act) of (trees', tree) \<Rightarrow>
      if \<not> overlaps_range tree start end'
      then (case tree_add tree \<lparr>iv_begin = start, iv_end = end', iv_data = id_act act\<rparr> of
              Inl e \<Rightarrow> Inl e
            | Inr tree' \<Rightarrow> Inr (trees_store trees' (schedule_id act) tree'))
      else Inr trees')"

fun pack_loop :: "trees \<Rightarrow> track_activity list \<Rightarrow> error + trees" where
  "pack_loop trees [] = Inr trees"
| "pack_loop trees (act # rest) =
     (case pack_step trees act of Inl e \<Rightarrow> Inl e | Inr trees' \<Rightarrow> pack_loop trees' rest)"

definition ordered_ids_of :: "trees \<Rightarrow> int list" where
  \<comment> \<open>the second loop: each tree's intervals sorted by \<open>begin\<close>, their data concatenated\<close>
  "ordered_ids_of trees = concat (map (\<lambda>(k, tree). map iv_data (sort_key iv_begin tree)) trees)"

definition optimum_timetable :: "track_activity list \<Rightarrow> error + int list" where
  "optimum_timetable input =
     (case pack_loop [] input of Inl e \<Rightarrow> Inl e | Inr trees \<Rightarrow> Inr (ordered_ids_of trees))"

definition optimum_timetable_call ::
  "track_activity list \<Rightarrow> track_activity list \<times> (error + int list)" where
  \<comment> \<open>The call together with the caller's list after it: \<open>optimum_timetable\<close> only reads
      \<open>input\<close>.\<close>
  "optimum_timetable_call input = (input, optimum_timetable input)"

text \<open>
  The notions the properties of the packer are stated with: the interval the packer
  computes for an activity, whether two half-open intervals share a point, and the tree
  kept for a track (empty for a track not seen yet).
\<close>

definition interval_of :: "track_activity \<Rightarrow> error + int \<times> int" where
  "interval_of act =
     (case time_to_minutes (start_time act) of Inl e \<Rightarrow> Inl e | Inr start \<Rightarrow>
      case time_to_minutes (end_time act) of Inl e \<Rightarrow> Inl e | Inr end' \<Rightarrow> Inr (start, end'))"

definition intervals_overlap :: "int \<times> int \<Rightarrow> int \<times> int \<Rightarrow> bool" where
  "intervals_overlap i1 i2 = ({fst i1 ..< snd i1} \<inter> {fst i2 ..< snd i2} \<noteq> {})"

definition tree_of :: "trees \<Rightarrow> int \<Rightarrow> interval_tree" where
  "tree_of trees k = (case map_of trees k of Some tree \<Rightarrow> tree | None \<Rightarrow> [])"

text \<open>
  For comparison with what the packer computes, two further readings of a time string.
  \<open>spec_time_to_minutes\<close> is the normalizer as the specification words it: \<open>hour*60 +
  minute\<close>, plus \<open>24*60\<close> when \<open>hour < 8\<close>. \<open>clock_minutes\<close> is the time of day in minutes
  since midnight. Neither is code of the program.
\<close>

definition spec_time_to_minutes :: "string \<Rightarrow> error + int" where
  "spec_time_to_minutes t =
     (case strptime_HMS t of Inl e \<Rightarrow> Inl e | Inr t' \<Rightarrow>
      if hour t' < 8 then Inr (hour t' * 60 + minute t' + 24 * 60)
      else Inr (hour t' * 60 + minute t'))"

definition spec_interval_of :: "track_activity \<Rightarrow> error + int \<times> int" where
  "spec_interval_of act =
     (case spec_time_to_minutes (start_time act) of Inl e \<Rightarrow> Inl e | Inr start \<Rightarrow>
      case spec_time_to_minutes (end_time act) of Inl e \<Rightarrow> Inl e
      | Inr end' \<Rightarrow> Inr (start, end'))"

definition clock_minutes :: "string \<Rightarrow> error + int" where
  "clock_minutes t =
     (case strptime_HMS t of Inl e \<Rightarrow> Inl e | Inr t' \<Rightarrow> Inr (hour t' * 60 + minute t'))"

definition clock_interval_of :: "track_activity \<Rightarrow> error + int \<times> int" where
  "clock_interval_of act =
     (case clock_minutes (start_time act) of Inl e \<Rightarrow> Inl e | Inr start \<Rightarrow>
      case clock_minutes (end_time act) of Inl e \<Rightarrow> Inl e | Inr end' \<Rightarrow> Inr (start, end'))"

section \<open>Predecessor finder\<close>

function prev_loop :: "valued_activity list \<Rightarrow> int \<Rightarrow> int \<Rightarrow> int \<Rightarrow> int \<Rightarrow> error + int" where
  "prev_loop activities start l r best_idx =
     (if l \<le> r then
        (let mid = (l + r) div 2 in
         case py_index activities mid of Inl e \<Rightarrow> Inl e | Inr a \<Rightarrow>
         if end_time a \<le> start then prev_loop activities start (mid + 1) r mid
         else prev_loop activities start l (mid - 1) best_idx)
      else Inr best_idx)"
  by pat_completeness auto
termination
  by (relation "measure (\<lambda>(activities, start, l, r, best_idx). nat (r - l + 1))") auto

declare prev_loop.simps [simp del]

definition prev :: "valued_activity list \<Rightarrow> int \<Rightarrow> error + int" where
  "prev activities i =
     (case py_index activities i of Inl e \<Rightarrow> Inl e
      | Inr a \<Rightarrow> prev_loop activities (start_time a) 0 (i - 1) (- 1))"

section \<open>Weighted scheduler\<close>

definition dp_step :: "valued_activity list \<Rightarrow> int list \<Rightarrow> int \<Rightarrow> error + int list" where
  \<comment> \<open>one iteration of \<open>for i in range(n)\<close>\<close>
  "dp_step activities dp_table i =
     (case prev activities i of Inl e \<Rightarrow> Inl e | Inr p \<Rightarrow>
      case py_index dp_table (i - 1) of Inl e \<Rightarrow> Inl e | Inr before \<Rightarrow>
      case py_index activities i of Inl e \<Rightarrow> Inl e | Inr a \<Rightarrow>
      case (if p \<ge> 0 then py_index dp_table p else Inr 0) of Inl e \<Rightarrow> Inl e | Inr with_p \<Rightarrow>
      py_setitem dp_table i (max before (value_act a + with_p)))"

fun dp_loop :: "valued_activity list \<Rightarrow> int list \<Rightarrow> int list \<Rightarrow> error + int list" where
  "dp_loop activities dp_table [] = Inr dp_table"
| "dp_loop activities dp_table (i # rest) =
     (case dp_step activities dp_table i of Inl e \<Rightarrow> Inl e
      | Inr dp_table' \<Rightarrow> dp_loop activities dp_table' rest)"

text \<open>
  The backtracking loop \<open>while i >= 0\<close>. Nothing in its text bounds the number of
  iterations, so it is a partial function: \<open>None\<close> is a loop that does not return.
\<close>

partial_function (option) backtrack ::
  "valued_activity list \<Rightarrow> int list \<Rightarrow> int \<Rightarrow> int list \<Rightarrow> (error + int list) option" where
  "backtrack activities dp_table i ids =
     (if i \<ge> 0 then
        (case (if i = 0 then Inr True
               else case py_index dp_table i of Inl e \<Rightarrow> Inl e | Inr here \<Rightarrow>
                    case py_index dp_table (i - 1) of Inl e \<Rightarrow> Inl e
                    | Inr before \<Rightarrow> Inr (here \<noteq> before)) of
           Inl e \<Rightarrow> Some (Inl e)
         | Inr selected \<Rightarrow>
             if selected then
               (case py_index activities i of Inl e \<Rightarrow> Some (Inl e) | Inr a \<Rightarrow>
                case prev activities i of Inl e \<Rightarrow> Some (Inl e)
                | Inr p \<Rightarrow> backtrack activities dp_table p (ids @ [id_act a]))
             else backtrack activities dp_table (i - 1) ids)
      else Some (Inr ids))"

definition range_n :: "nat \<Rightarrow> int list" where
  \<comment> \<open>\<open>range(n)\<close>\<close>
  "range_n n = map int [0..<n]"

definition dp_table_of :: "valued_activity list \<Rightarrow> nat \<Rightarrow> error + int list" where
  \<comment> \<open>the table after \<open>for i in range(n)\<close>, every entry \<open>-1\<close> before it\<close>
  "dp_table_of activities n =
     dp_loop activities (replicate (length activities) (- 1)) (range_n n)"

definition weighted_scheduling ::
  "valued_activity list \<Rightarrow> (valued_activity list \<times> (error + int list)) option" where
  \<comment> \<open>The result is paired with the caller's list as the call leaves it:
      \<open>activities.sort\<close> sorts that list in place (a stable sort).\<close>
  "weighted_scheduling activities0 =
     (let n = length activities0;
          activities = sort_key end_time activities0
      in case dp_table_of activities n of
           Inl e \<Rightarrow> Some (activities, Inl e)
         | Inr dp_table \<Rightarrow>
             (case backtrack activities dp_table (int n - 1) [] of
                None \<Rightarrow> None
              | Some r \<Rightarrow> Some (activities, r)))"

text \<open>
  The notions the optimality of the selection is stated with: two activities overlap when
  their half-open intervals share a point; a selection, a set of positions of the sorted
  list, is compatible when no two of its activities overlap; its value is the sum of their
  \<open>value\<close> fields.
\<close>

definition acts_overlap :: "valued_activity \<Rightarrow> valued_activity \<Rightarrow> bool" where
  "acts_overlap a b = intervals_overlap (start_time a, end_time a) (start_time b, end_time b)"

definition compatible :: "valued_activity list \<Rightarrow> nat set \<Rightarrow> bool" where
  "compatible activities S =
     (\<forall>i\<in>S. \<forall>j\<in>S. i \<noteq> j \<longrightarrow> \<not> acts_overlap (activities ! i) (activities ! j))"

definition total_value :: "valued_activity list \<Rightarrow> nat set \<Rightarrow> int" where
  "total_value activities S = (\<Sum>i\<in>S. value_act (activities ! i))"


section \<open>Properties of the time normalizer\<close>

lemma time_to_minutes_0800: "time_to_minutes ''08:00:00'' = Inr 480"
  by (simp add: time_to_minutes_def strptime_HMS_def is_digit_def digit_val_def)

lemma time_to_minutes_2330: "time_to_minutes ''23:30:00'' = Inr 1410"
  by (simp add: time_to_minutes_def strptime_HMS_def is_digit_def digit_val_def)

text \<open>
  C2. The normalizer is claimed to map "07:59:00" to 1919, that is to
  \<open>hour * 60 + minute + 24 * 60\<close> for an hour below 8. The branch for an hour below 8
  adds \<open>hour + 24\<close> where the other branch has \<open>hour * 60\<close>: "07:59:00" is mapped to
  \<open>7 + 24 + 59 + 1440 = 1530\<close>.
\<close>

theorem time_to_minutes_0759: "time_to_minutes ''07:59:00'' = Inr 1530"
  by (simp add: time_to_minutes_def strptime_HMS_def is_digit_def digit_val_def)

section \<open>Properties of the predecessor finder\<close>

lemma py_index_in_range:
  "0 \<le> i \<Longrightarrow> i < int (length xs) \<Longrightarrow> py_index xs i = Inr (xs ! nat i)"
  by (simp add: py_index_def resolve_index_def)

lemma py_index_Inr_nonneg:
  "py_index xs i = Inr a \<Longrightarrow> 0 \<le> i \<Longrightarrow> i < int (length xs) \<and> a = xs ! nat i"
  by (auto simp: py_index_def resolve_index_def split: if_splits)

lemma prev_loop_exit:
  "\<not> l \<le> r \<Longrightarrow> prev_loop activities start l r best_idx = Inr best_idx"
  by (subst prev_loop.simps) simp

lemma prev_loop_iterate:
  "l \<le> r \<Longrightarrow> prev_loop activities start l r best_idx =
     (case py_index activities ((l + r) div 2) of Inl e \<Rightarrow> Inl e
      | Inr a \<Rightarrow>
          if end_time a \<le> start
          then prev_loop activities start ((l + r) div 2 + 1) r ((l + r) div 2)
          else prev_loop activities start l ((l + r) div 2 - 1) best_idx)"
  by (subst prev_loop.simps) (simp add: Let_def)

lemma prev_loop_result:
  "prev_loop activities start l r best_idx = Inr p \<Longrightarrow> p = best_idx \<or> (l \<le> p \<and> p \<le> r)"
proof (induction activities start l r best_idx rule: prev_loop.induct)
  case (1 activities start l r best_idx)
  show ?case
  proof (cases "l \<le> r")
    case False
    with "1.prems" show ?thesis by (simp add: prev_loop_exit)
  next
    case True
    define mid where "mid = (l + r) div 2"
    have mid: "l \<le> mid" "mid \<le> r" using True by (auto simp: mid_def)
    note step = prev_loop_iterate[OF True, of activities start best_idx, folded mid_def]
    show ?thesis
    proof (cases "py_index activities mid")
      case (Inl e)
      with "1.prems" step show ?thesis by simp
    next
      case (Inr a)
      show ?thesis
      proof (cases "end_time a \<le> start")
        case le: True
        with "1.prems" step Inr have "prev_loop activities start (mid + 1) r mid = Inr p"
          by simp
        from "1.IH"(1)[OF True mid_def Inr le this] mid show ?thesis by auto
      next
        case gt: False
        with "1.prems" step Inr have "prev_loop activities start l (mid - 1) best_idx = Inr p"
          by simp
        from "1.IH"(2)[OF True mid_def Inr gt this] mid show ?thesis by auto
      qed
    qed
  qed
qed

lemma prev_loop_returns:
  "0 \<le> l \<Longrightarrow> r < int (length activities) \<Longrightarrow> \<exists>p. prev_loop activities start l r best_idx = Inr p"
proof (induction activities start l r best_idx rule: prev_loop.induct)
  case (1 activities start l r best_idx)
  show ?case
  proof (cases "l \<le> r")
    case False
    then show ?thesis by (simp add: prev_loop_exit)
  next
    case True
    define mid where "mid = (l + r) div 2"
    have mid: "l \<le> mid" "mid \<le> r" using True by (auto simp: mid_def)
    note step = prev_loop_iterate[OF True, of activities start best_idx, folded mid_def]
    have a: "py_index activities mid = Inr (activities ! nat mid)"
      using mid "1.prems" by (intro py_index_in_range) auto
    show ?thesis
    proof (cases "end_time (activities ! nat mid) \<le> start")
      case le: True
      have "\<exists>p. prev_loop activities start (mid + 1) r mid = Inr p"
        using "1.IH"(1)[OF True mid_def a le] mid "1.prems" by auto
      with a le show ?thesis by (simp add: step)
    next
      case gt: False
      have "\<exists>p. prev_loop activities start l (mid - 1) best_idx = Inr p"
        using "1.IH"(2)[OF True mid_def a gt] mid "1.prems" by auto
      with a gt show ?thesis by (simp add: step)
    qed
  qed
qed

lemma prev_result:
  assumes "prev activities i = Inr p" "0 \<le> i"
  shows "- 1 \<le> p \<and> p < i"
proof (cases "py_index activities i")
  case (Inl e)
  with assms(1) show ?thesis by (simp add: prev_def)
next
  case (Inr a)
  with assms(1) have "prev_loop activities (start_time a) 0 (i - 1) (- 1) = Inr p"
    by (simp add: prev_def)
  from prev_loop_result[OF this] assms(2) show ?thesis by auto
qed

lemma prev_returns:
  assumes "0 \<le> i" "i < int (length activities)"
  shows "\<exists>p. prev activities i = Inr p"
proof -
  have "py_index activities i = Inr (activities ! nat i)"
    using assms by (rule py_index_in_range)
  moreover have "\<exists>p. prev_loop activities (start_time (activities ! nat i)) 0 (i - 1) (- 1) = Inr p"
    using assms by (intro prev_loop_returns) auto
  ultimately show ?thesis by (simp add: prev_def)
qed

text \<open>
  On a list sorted by end time the binary search keeps \<open>best_idx = l - 1\<close>: every index
  below \<open>l\<close> ends by \<open>start\<close>, and no index above \<open>r\<close> does.
\<close>


lemma sorted_end_time_mono:
  assumes "sorted (map end_time activities)" "j \<le> k" "k < length activities"
  shows "end_time (activities ! j) \<le> end_time (activities ! k)"
  using sorted_nth_mono[OF assms(1), of j k] assms(2,3) by simp

lemma prev_loop_search:
  assumes "sorted (map end_time activities)"
    and "0 \<le> l" and "l \<le> r + 1" and "r < int (length activities)"
    and "best_idx = l - 1"
    and "\<forall>j. 0 \<le> j \<and> j < l \<longrightarrow> end_time (activities ! nat j) \<le> start"
    and "\<forall>j. r < j \<and> j < hi \<longrightarrow> \<not> end_time (activities ! nat j) \<le> start"
    and "hi \<le> int (length activities)"
  shows "\<exists>p. prev_loop activities start l r best_idx = Inr p \<and> l - 1 \<le> p \<and> p \<le> r
           \<and> (\<forall>j. 0 \<le> j \<and> j \<le> p \<longrightarrow> end_time (activities ! nat j) \<le> start)
           \<and> (\<forall>j. p < j \<and> j < hi \<longrightarrow> \<not> end_time (activities ! nat j) \<le> start)"
  using assms
proof (induction activities start l r best_idx rule: prev_loop.induct)
  case (1 activities start l r best_idx)
  show ?case
  proof (cases "l \<le> r")
    case False
    with "1.prems" have "r = l - 1" by simp
    with False "1.prems" show ?thesis by (auto simp: prev_loop_exit)
  next
    case True
    define mid where "mid = (l + r) div 2"
    have mid: "l \<le> mid" "mid \<le> r" using True by (auto simp: mid_def)
    note step = prev_loop_iterate[OF True, of activities start best_idx, folded mid_def]
    have a: "py_index activities mid = Inr (activities ! nat mid)"
      using mid "1.prems" by (intro py_index_in_range) auto
    have midn: "nat mid < length activities" using mid "1.prems" by auto
    show ?thesis
    proof (cases "end_time (activities ! nat mid) \<le> start")
      case le: True
      have below: "\<forall>j. 0 \<le> j \<and> j < mid + 1 \<longrightarrow> end_time (activities ! nat j) \<le> start"
      proof (intro allI impI)
        fix j assume j: "0 \<le> j \<and> j < mid + 1"
        then have "nat j \<le> nat mid" by auto
        from sorted_end_time_mono[OF "1.prems"(1) this midn] le
        show "end_time (activities ! nat j) \<le> start" by simp
      qed
      have "\<exists>p. prev_loop activities start (mid + 1) r mid = Inr p \<and> mid + 1 - 1 \<le> p \<and> p \<le> r
           \<and> (\<forall>j. 0 \<le> j \<and> j \<le> p \<longrightarrow> end_time (activities ! nat j) \<le> start)
           \<and> (\<forall>j. p < j \<and> j < hi \<longrightarrow> \<not> end_time (activities ! nat j) \<le> start)"
        using mid "1.prems" below
        by (intro "1.IH"(1)[OF True mid_def a le]) auto
      with a le mid show ?thesis by (auto simp: step)
    next
      case gt: False
      have above: "\<forall>j. mid - 1 < j \<and> j < hi \<longrightarrow> \<not> end_time (activities ! nat j) \<le> start"
      proof (intro allI impI)
        fix j assume j: "mid - 1 < j \<and> j < hi"
        then have "nat mid \<le> nat j" "nat j < length activities"
          using "1.prems"(2,8) mid by auto
        from sorted_end_time_mono[OF "1.prems"(1) this] gt
        show "\<not> end_time (activities ! nat j) \<le> start" by simp
      qed
      have "\<exists>p. prev_loop activities start l (mid - 1) best_idx = Inr p \<and> l - 1 \<le> p \<and> p \<le> mid - 1
           \<and> (\<forall>j. 0 \<le> j \<and> j \<le> p \<longrightarrow> end_time (activities ! nat j) \<le> start)
           \<and> (\<forall>j. p < j \<and> j < hi \<longrightarrow> \<not> end_time (activities ! nat j) \<le> start)"
        using mid "1.prems" above
        by (intro "1.IH"(2)[OF True mid_def a gt]) auto
      with a gt mid show ?thesis by (auto simp: step)
    qed
  qed
qed

lemma prev_search:
  assumes "sorted (map end_time activities)" and "0 \<le> i" and "i < int (length activities)"
  shows "\<exists>p. prev activities i = Inr p \<and> - 1 \<le> p \<and> p < i
           \<and> (0 \<le> p \<longrightarrow> end_time (activities ! nat p) \<le> start_time (activities ! nat i))
           \<and> (\<forall>j. p < j \<and> j < i \<longrightarrow>
                 \<not> end_time (activities ! nat j) \<le> start_time (activities ! nat i))
           \<and> (p = - 1 \<longleftrightarrow>
                 \<not> (\<exists>j. 0 \<le> j \<and> j < i \<and>
                      end_time (activities ! nat j) \<le> start_time (activities ! nat i)))"
proof -
  let ?start = "start_time (activities ! nat i)"
  have idx: "py_index activities i = Inr (activities ! nat i)"
    using assms(2,3) by (rule py_index_in_range)
  have "\<exists>p. prev_loop activities ?start 0 (i - 1) (- 1) = Inr p \<and> 0 - 1 \<le> p \<and> p \<le> i - 1
           \<and> (\<forall>j. 0 \<le> j \<and> j \<le> p \<longrightarrow> end_time (activities ! nat j) \<le> ?start)
           \<and> (\<forall>j. p < j \<and> j < i \<longrightarrow> \<not> end_time (activities ! nat j) \<le> ?start)"
    using assms by (intro prev_loop_search) auto
  then obtain p where p: "prev_loop activities ?start 0 (i - 1) (- 1) = Inr p"
    "- 1 \<le> p" "p \<le> i - 1"
    "\<forall>j. 0 \<le> j \<and> j \<le> p \<longrightarrow> end_time (activities ! nat j) \<le> ?start"
    "\<forall>j. p < j \<and> j < i \<longrightarrow> \<not> end_time (activities ! nat j) \<le> ?start"
    by auto
  have "prev activities i = Inr p" using idx p(1) by (simp add: prev_def)
  moreover have "p = - 1 \<longleftrightarrow>
      \<not> (\<exists>j. 0 \<le> j \<and> j < i \<and> end_time (activities ! nat j) \<le> ?start)"
  proof
    assume "p = - 1"
    with p(5) show "\<not> (\<exists>j. 0 \<le> j \<and> j < i \<and> end_time (activities ! nat j) \<le> ?start)"
      by auto
  next
    assume none: "\<not> (\<exists>j. 0 \<le> j \<and> j < i \<and> end_time (activities ! nat j) \<le> ?start)"
    show "p = - 1"
    proof (rule ccontr)
      assume "p \<noteq> - 1"
      with p(2,3,4) have "0 \<le> p \<and> p < i \<and> end_time (activities ! nat p) \<le> ?start" by auto
      with none show False by blast
    qed
  qed
  ultimately show ?thesis using p(2,3,4,5) by auto
qed


text \<open>
  C4. On activities sorted ascending by end time and an index \<open>i\<close> of the list, \<open>prev\<close>
  returns the largest index \<open>j < i\<close> whose activity ends at or before the start of
  activity \<open>i\<close> (an end equal to that start qualifies), and \<open>-1\<close> exactly when there is
  no such index; for \<open>i = 0\<close> there is none.
\<close>

theorem prev_largest_predecessor:
  assumes "sorted (map end_time activities)" and "0 \<le> i" and "i < int (length activities)"
  shows "\<exists>p. prev activities i = Inr p \<and> - 1 \<le> p \<and> p < i
           \<and> (0 \<le> p \<longrightarrow> end_time (activities ! nat p) \<le> start_time (activities ! nat i))
           \<and> (\<forall>j. p < j \<and> j < i \<longrightarrow>
                 \<not> end_time (activities ! nat j) \<le> start_time (activities ! nat i))
           \<and> (p = - 1 \<longleftrightarrow>
                 \<not> (\<exists>j. 0 \<le> j \<and> j < i \<and>
                      end_time (activities ! nat j) \<le> start_time (activities ! nat i)))"
  using assms by (rule prev_search)

theorem prev_largest_predecessor_witness:
  "sorted (map end_time [valued_act 1 0 5 5, valued_act 2 3 8 6, valued_act 3 5 10 5])
   \<and> prev [valued_act 1 0 5 5, valued_act 2 3 8 6, valued_act 3 5 10 5] 2 = Inr 0"
proof -
  let ?acts = "[valued_act 1 0 5 5, valued_act 2 3 8 6, valued_act 3 5 10 5]"
  have h1: "sorted (map end_time ?acts)" by (simp add: valued_act_def)
  have h2: "(0::int) \<le> 2" by simp
  have h3: "(2::int) < int (length ?acts)" by simp
  from prev_largest_predecessor[OF h1 h2 h3] obtain p where
    p: "prev ?acts 2 = Inr p" "- 1 \<le> p" "p < 2"
       "0 \<le> p \<longrightarrow> end_time (?acts ! nat p) \<le> start_time (?acts ! nat 2)"
       "p = - 1 \<longleftrightarrow> \<not> (\<exists>j. 0 \<le> j \<and> j < 2 \<and>
                      end_time (?acts ! nat j) \<le> start_time (?acts ! nat 2))"
    by blast
  have "(0::int) \<le> 0 \<and> (0::int) < 2
      \<and> end_time (?acts ! nat 0) \<le> start_time (?acts ! nat 2)"
    by (simp add: valued_act_def)
  with p(5) have "p \<noteq> - 1" by blast
  moreover have "p \<noteq> 1"
  proof
    assume "p = 1"
    with p(4) have "end_time (?acts ! nat 1) \<le> start_time (?acts ! nat 2)" by simp
    then show False by (simp add: valued_act_def)
  qed
  ultimately have "p = 0" using p(2,3) by arith
  with p(1) h1 show ?thesis by simp
qed

section \<open>The scheduler returns\<close>

lemma py_index_last:
  "xs \<noteq> [] \<Longrightarrow> py_index xs (- 1) = Inr (xs ! (length xs - 1))"
  by (cases xs) (auto simp: py_index_def resolve_index_def nat_diff_distrib)

lemma py_setitem_in_range:
  "0 \<le> i \<Longrightarrow> i < int (length xs) \<Longrightarrow> py_setitem xs i v = Inr (xs[nat i := v])"
  by (simp add: py_setitem_def resolve_index_def)

lemma dp_step_in_range:
  assumes "0 \<le> i" "i < int (length activities)" "length dp_table = length activities"
    and "prev activities i = Inr p"
  shows "dp_step activities dp_table i =
           Inr (dp_table[nat i :=
                  max (if i = 0 then dp_table ! (length dp_table - 1) else dp_table ! nat (i - 1))
                      (value_act (activities ! nat i) + (if 0 \<le> p then dp_table ! nat p else 0))])"
proof -
  from prev_result[OF assms(4) assms(1)] have p: "- 1 \<le> p" "p < i" by auto
  have ne: "dp_table \<noteq> []" using assms by auto
  have before: "py_index dp_table (i - 1) =
      Inr (if i = 0 then dp_table ! (length dp_table - 1) else dp_table ! nat (i - 1))"
    using assms(1,2,3) ne by (auto simp: py_index_last py_index_in_range)
  have a: "py_index activities i = Inr (activities ! nat i)"
    using assms by (intro py_index_in_range)
  have with_p: "(if 0 \<le> p then py_index dp_table p else Inr 0) =
      Inr (if 0 \<le> p then dp_table ! nat p else 0)"
    using p assms(2,3) by (auto simp: py_index_in_range)
  have "py_setitem dp_table i v = Inr (dp_table[nat i := v])" for v
    using assms by (intro py_setitem_in_range) auto
  then show ?thesis
    unfolding dp_step_def by (simp only: assms(4) before a with_p sum.case)
qed

lemma dp_step_returns:
  assumes "0 \<le> i" "i < int (length activities)" "length dp_table = length activities"
  shows "\<exists>dp_table'. dp_step activities dp_table i = Inr dp_table'
            \<and> length dp_table' = length activities"
proof -
  from prev_returns[OF assms(1,2)] obtain p where "prev activities i = Inr p" by blast
  from dp_step_in_range[OF assms this] assms(3) show ?thesis by simp
qed

lemma dp_loop_returns:
  "\<forall>i\<in>set is. 0 \<le> i \<and> i < int (length activities) \<Longrightarrow>
   length dp_table = length activities \<Longrightarrow>
   \<exists>dp_table'. dp_loop activities dp_table is = Inr dp_table'
      \<and> length dp_table' = length activities"
proof (induction "is" arbitrary: dp_table)
  case Nil
  then show ?case by simp
next
  case (Cons i rest)
  from Cons.prems have "0 \<le> i" "i < int (length activities)" by auto
  from dp_step_returns[OF this Cons.prems(2)] obtain d where
    d: "dp_step activities dp_table i = Inr d" "length d = length activities" by blast
  from Cons.IH[OF _ d(2)] Cons.prems(1) d(1) show ?case by simp
qed

lemma backtrack_returns:
  "\<exists>r. backtrack activities dp_table i ids = Some r"
proof (induction "nat (i + 1)" arbitrary: i ids rule: less_induct)
  case less
  show ?case
  proof (cases "0 \<le> i")
    case False
    then show ?thesis by (subst backtrack.simps) simp
  next
    case True
    let ?cond = "if i = 0 then Inr True
               else case py_index dp_table i of Inl e \<Rightarrow> Inl e | Inr here \<Rightarrow>
                    case py_index dp_table (i - 1) of Inl e \<Rightarrow> Inl e
                    | Inr before \<Rightarrow> Inr (here \<noteq> before)"
    show ?thesis
    proof (cases ?cond)
      case (Inl e)
      with True show ?thesis by (subst backtrack.simps) simp
    next
      case (Inr selected)
      show ?thesis
      proof (cases selected)
        case sel: False
        have "\<exists>r. backtrack activities dp_table (i - 1) ids = Some r"
          using True by (intro less) auto
        with True Inr sel show ?thesis by (subst backtrack.simps) simp
      next
        case sel: True
        show ?thesis
        proof (cases "py_index activities i")
          case (Inl e)
          with True Inr sel show ?thesis by (subst backtrack.simps) simp
        next
          case a: (Inr a)
          show ?thesis
          proof (cases "prev activities i")
            case (Inl e)
            with True Inr sel a show ?thesis by (subst backtrack.simps) simp
          next
            case p: (Inr p)
            from prev_result[OF p True] have "nat (p + 1) < nat (i + 1)" by auto
            from less[OF this] have
              "\<exists>r. backtrack activities dp_table p (ids @ [id_act a]) = Some r" .
            with True Inr sel a p show ?thesis by (subst backtrack.simps) simp
          qed
        qed
      qed
    qed
  qed
qed

lemma backtrack_returns_list:
  "length dp_table = length activities \<Longrightarrow> i < int (length activities) \<Longrightarrow>
   \<exists>ids'. backtrack activities dp_table i ids = Some (Inr ids')"
proof (induction "nat (i + 1)" arbitrary: i ids rule: less_induct)
  case less
  show ?case
  proof (cases "0 \<le> i")
    case False
    then show ?thesis by (subst backtrack.simps) simp
  next
    case True
    have a: "py_index activities i = Inr (activities ! nat i)"
      using True less.prems by (intro py_index_in_range)
    from prev_returns[OF True less.prems(2)] obtain p where p: "prev activities i = Inr p"
      by blast
    from prev_result[OF p True] have pb: "- 1 \<le> p" "p < i" by auto
    have incl: "\<exists>ids'. backtrack activities dp_table p (ids @ [id_act (activities ! nat i)])
         = Some (Inr ids')"
      using pb less.prems by (intro less) auto
    have excl: "\<exists>ids'. backtrack activities dp_table (i - 1) ids = Some (Inr ids')"
      using True less.prems by (intro less) auto
    show ?thesis
    proof (cases "i = 0")
      case True
      with a p incl show ?thesis by (subst backtrack.simps) simp
    next
      case False
      with True less.prems have
        "py_index dp_table i = Inr (dp_table ! nat i)"
        "py_index dp_table (i - 1) = Inr (dp_table ! nat (i - 1))"
        by (auto intro!: py_index_in_range)
      with True False a p incl excl show ?thesis by (subst backtrack.simps) simp
    qed
  qed
qed

lemma range_n_set: "i \<in> set (range_n n) \<Longrightarrow> 0 \<le> i \<and> i < int n"
  by (auto simp: range_n_def)

lemma weighted_scheduling_returns:
  "\<exists>ids. weighted_scheduling activities = Some (sort_key end_time activities, Inr ids)"
proof -
  let ?acts = "sort_key end_time activities"
  let ?n = "length activities"
  have len: "length ?acts = ?n" by simp
  have "\<exists>d. dp_loop ?acts (replicate (length ?acts) (- 1)) (range_n ?n) = Inr d
      \<and> length d = length ?acts"
    by (intro dp_loop_returns) (auto dest: range_n_set)
  then obtain d where d: "dp_loop ?acts (replicate (length ?acts) (- 1)) (range_n ?n) = Inr d"
    "length d = length ?acts" by blast
  have "\<exists>ids. backtrack ?acts d (int ?n - 1) [] = Some (Inr ids)"
    using d(2) by (intro backtrack_returns_list) auto
  then obtain ids where "backtrack ?acts d (int ?n - 1) [] = Some (Inr ids)" by blast
  with d(1) show ?thesis by (simp add: weighted_scheduling_def dp_table_of_def Let_def)
qed

text \<open>
  C10. The backtracking loop of the weighted scheduler terminates on every input: at an
  index \<open>i\<close> of the list \<open>prev\<close> returns a value from \<open>-1\<close> to \<open>i - 1\<close>, so the loop
  index decreases on the inclusion branch as it does on the exclusion branch. The loop
  returns from every state, and the scheduler returns a list of ids on every input.
\<close>

theorem backtrack_terminates:
  "(0 \<le> i \<and> i < int (length activities) \<longrightarrow>
      (\<exists>p. prev activities i = Inr p \<and> - 1 \<le> p \<and> p \<le> i - 1))
   \<and> (\<exists>r. backtrack activities dp_table i ids = Some r)
   \<and> (\<exists>ids'. weighted_scheduling activities = Some (sort_key end_time activities, Inr ids'))"
proof (intro conjI impI)
  assume i: "0 \<le> i \<and> i < int (length activities)"
  then obtain p where p: "prev activities i = Inr p" using prev_returns by blast
  from prev_result[OF p] i have "- 1 \<le> p \<and> p \<le> i - 1" by auto
  with p show "\<exists>p. prev activities i = Inr p \<and> - 1 \<le> p \<and> p \<le> i - 1" by blast
next
  show "\<exists>r. backtrack activities dp_table i ids = Some r" by (rule backtrack_returns)
next
  show "\<exists>ids'. weighted_scheduling activities = Some (sort_key end_time activities, Inr ids')"
    by (rule weighted_scheduling_returns)
qed


theorem backtrack_terminates_witness:
  "(0::int) \<le> 2 \<and> (2::int) < int (length [valued_act 1 0 5 5, valued_act 2 3 8 6, valued_act 3 6 10 5])
   \<and> (\<exists>p. prev [valued_act 1 0 5 5, valued_act 2 3 8 6, valued_act 3 6 10 5] 2 = Inr p
          \<and> - 1 \<le> p \<and> p \<le> 2 - 1)"
  using backtrack_terminates[of 2 "[valued_act 1 0 5 5, valued_act 2 3 8 6, valued_act 3 6 10 5]"
      "[5, 6, 10]" "[]"]
  by simp

section \<open>The table on a negative value\<close>

text \<open>
  C3. The table is claimed to satisfy \<open>dp[i] = max(dp[i-1], value[i] + dp[p])\<close> with
  \<open>dp[i-1]\<close> taken as 0 at \<open>i = 0\<close>, so that \<open>dp[0] = max(0, value[0])\<close>. At \<open>i = 0\<close> the
  code reads \<open>dp_table[-1]\<close>, the last entry of the table, which still holds the initial
  \<open>-1\<close>: on the single activity of value \<open>-5\<close> the table is \<open>[-1]\<close>, not \<open>[0]\<close>.
\<close>

theorem dp_table_negative_value:
  "dp_table_of (sort_key end_time [valued_act 1 0 5 (- 5)]) 1 = Inr [- 1]
   \<and> max 0 (value_act (valued_act 1 0 5 (- 5))) = 0"
  by (simp add: dp_table_of_def range_n_def dp_step_def prev_def prev_loop_exit py_index_def
      py_setitem_def resolve_index_def valued_act_def)

section \<open>What the calls leave of their argument\<close>

text \<open>
  C8, as stated: after either scheduler returns, the caller's list is as it was before the
  call. The weighted scheduler sorts the caller's list in place: a list that is not sorted
  by end time comes back reordered.
\<close>

theorem weighted_scheduling_reorders_input:
  "weighted_scheduling [valued_act 1 0 10 1, valued_act 2 0 5 1]
     = Some ([valued_act 2 0 5 1, valued_act 1 0 10 1], Inr [2])
   \<and> [valued_act 2 0 5 1, valued_act 1 0 10 1] \<noteq> [valued_act 1 0 10 1, valued_act 2 0 5 1]"
  by (simp add: weighted_scheduling_def dp_table_of_def range_n_def dp_step_def prev_def
      prev_loop_exit prev_loop_iterate py_index_def py_setitem_def resolve_index_def
      valued_act_def backtrack.simps)

text \<open>
  C8, amended: the track packer leaves the caller's list as it was. The weighted scheduler
  leaves the caller's list holding the same activities, each with its fields unchanged,
  stably sorted ascending by end time; the list is as it was before the call exactly when
  it was sorted by end time already.
\<close>

theorem schedulers_argument_after_call:
  "fst (optimum_timetable_call input) = input
   \<and> (\<exists>r. weighted_scheduling activities = Some (sort_key end_time activities, r))
   \<and> mset (sort_key end_time activities) = mset activities
   \<and> sorted (map end_time (sort_key end_time activities))
   \<and> (\<forall>k. filter (\<lambda>a. end_time a = k) (sort_key end_time activities)
            = filter (\<lambda>a. end_time a = k) activities)
   \<and> (sort_key end_time activities = activities \<longleftrightarrow> sorted (map end_time activities))"
proof (intro conjI allI)
  show "fst (optimum_timetable_call input) = input"
    by (simp add: optimum_timetable_call_def)
next
  from weighted_scheduling_returns[of activities]
  show "\<exists>r. weighted_scheduling activities = Some (sort_key end_time activities, r)"
    by blast
next
  show "mset (sort_key end_time activities) = mset activities" by simp
next
  show "sorted (map end_time (sort_key end_time activities))" by simp
next
  fix k
  show "filter (\<lambda>a. end_time a = k) (sort_key end_time activities)
      = filter (\<lambda>a. end_time a = k) activities"
    by (rule sort_key_stable)
next
  show "sort_key end_time activities = activities \<longleftrightarrow> sorted (map end_time activities)"
  proof
    assume "sort_key end_time activities = activities"
    then have "map end_time activities = map end_time (sort_key end_time activities)" by simp
    then show "sorted (map end_time activities)" by (simp only: sorted_sort_key)
  next
    assume "sorted (map end_time activities)"
    then show "sort_key end_time activities = activities" by (rule sort_key_id_if_sorted)
  qed
qed

section \<open>Properties of the track packer\<close>

lemma intervals_overlap_iff:
  "intervals_overlap (s1, e1) (s2, e2) \<longleftrightarrow> max s1 s2 < min e1 e2"
proof
  assume "intervals_overlap (s1, e1) (s2, e2)"
  then obtain x where "x \<in> {s1 ..< e1} \<inter> {s2 ..< e2}"
    unfolding intervals_overlap_def fst_conv snd_conv by blast
  then show "max s1 s2 < min e1 e2" by auto
next
  assume "max s1 s2 < min e1 e2"
  then have "max s1 s2 \<in> {s1 ..< e1} \<inter> {s2 ..< e2}" by auto
  then show "intervals_overlap (s1, e1) (s2, e2)"
    unfolding intervals_overlap_def fst_conv snd_conv by blast
qed

lemma overlaps_point_iff:
  "overlaps_point tree p \<longleftrightarrow> (\<exists>iv\<in>set tree. iv_begin iv \<le> p \<and> p < iv_end iv)"
  by (auto simp: overlaps_point_def contains_point_def list_ex_iff)

lemma overlaps_range_iff:
  assumes "\<forall>iv\<in>set tree. iv_begin iv < iv_end iv" "b < e"
  shows "overlaps_range tree b e \<longleftrightarrow> (\<exists>iv\<in>set tree. iv_begin iv < e \<and> b < iv_end iv)"
proof
  assume "overlaps_range tree b e"
  then consider "overlaps_point tree b"
    | bound where "bound \<in> set (boundary_table tree)" "b < bound" "bound < e"
        "overlaps_point tree bound"
    using assms(2) by (auto simp: overlaps_range_def list_ex_iff split: if_splits)
  then show "\<exists>iv\<in>set tree. iv_begin iv < e \<and> b < iv_end iv"
  proof cases
    case 1
    then show ?thesis using assms(2) by (force simp: overlaps_point_iff)
  next
    case 2
    then show ?thesis by (force simp: overlaps_point_iff)
  qed
next
  assume "\<exists>iv\<in>set tree. iv_begin iv < e \<and> b < iv_end iv"
  then obtain iv where iv: "iv \<in> set tree" "iv_begin iv < e" "b < iv_end iv" by blast
  then have ne: "tree \<noteq> []" by auto
  show "overlaps_range tree b e"
  proof (cases "iv_begin iv \<le> b")
    case True
    with iv have "overlaps_point tree b" by (auto simp: overlaps_point_iff)
    with ne assms(2) show ?thesis by (simp add: overlaps_range_def)
  next
    case False
    have "iv_begin iv \<in> set (boundary_table tree)"
      using iv(1) by (auto simp: boundary_table_def)
    moreover have "overlaps_point tree (iv_begin iv)"
      using iv(1) assms(1) by (auto simp: overlaps_point_iff)
    ultimately have "\<exists>bound\<in>set (boundary_table tree).
        b < bound \<and> bound < e \<and> overlaps_point tree bound"
      using False iv(2) by (intro bexI[of _ "iv_begin iv"]) auto
    then show ?thesis
      using ne assms(2) by (auto simp: overlaps_range_def list_ex_iff)
  qed
qed

lemma tree_of_getitem:
  assumes "trees_getitem trees k = (trees', tree)" "distinct (map fst trees)"
  shows "tree = tree_of trees k" "tree_of trees' = tree_of trees"
    "distinct (map fst trees')" "k \<in> fst ` set trees'"
    "map_of trees' k = Some tree"
proof -
  show "tree = tree_of trees k"
    using assms(1) by (auto simp: trees_getitem_def tree_of_def split: option.splits)
  show "tree_of trees' = tree_of trees"
    using assms(1)
    by (auto simp: trees_getitem_def tree_of_def fun_eq_iff map_add_def
        split: option.splits if_splits)
  show "distinct (map fst trees')"
    using assms by (auto simp: trees_getitem_def map_of_eq_None_iff split: option.splits)
  show "k \<in> fst ` set trees'"
    using assms(1)
    by (auto simp: trees_getitem_def split: option.splits dest!: map_of_SomeD intro: rev_image_eqI)
  show "map_of trees' k = Some tree"
    using assms(1) by (auto simp: trees_getitem_def map_add_def split: option.splits)
qed

lemma map_of_trees_store:
  "map_of (trees_store trees k tree) k' =
     (if k' = k then map_option (\<lambda>_. tree) (map_of trees k) else map_of trees k')"
  by (induction trees) (auto simp: trees_store_def)

lemma keys_trees_store: "map fst (trees_store trees k tree) = map fst trees"
  by (induction trees) (auto simp: trees_store_def)

lemma tree_of_store:
  "k \<in> fst ` set trees \<Longrightarrow>
   tree_of (trees_store trees k tree) k' = (if k' = k then tree else tree_of trees k')"
  by (cases "map_of trees k")
    (auto simp: tree_of_def map_of_trees_store map_of_eq_None_iff)

text \<open>What one iteration does to the trees.\<close>

lemma pack_step_effect:
  assumes step: "pack_step trees act = Inr trees'"
    and keys: "distinct (map fst trees)"
    and nonnull: "\<forall>k. \<forall>iv\<in>set (tree_of trees k). iv_begin iv < iv_end iv"
  obtains s e where "interval_of act = Inr (s, e)"
    and "distinct (map fst trees')"
    and "overlaps_range (tree_of trees (schedule_id act)) s e \<Longrightarrow> tree_of trees' = tree_of trees"
    and "\<not> overlaps_range (tree_of trees (schedule_id act)) s e \<Longrightarrow>
           s < e \<and> tree_of trees' = (tree_of trees)(schedule_id act :=
             tree_of trees (schedule_id act) @ [\<lparr>iv_begin = s, iv_end = e, iv_data = id_act act\<rparr>])"
proof -
  from step obtain s where s: "time_to_minutes (start_time act) = Inr s"
    by (cases "time_to_minutes (start_time act)") (auto simp: pack_step_def)
  from step s obtain e where e: "time_to_minutes (end_time act) = Inr e"
    by (cases "time_to_minutes (end_time act)") (auto simp: pack_step_def)
  obtain trees1 tree where g: "trees_getitem trees (schedule_id act) = (trees1, tree)"
    by (cases "trees_getitem trees (schedule_id act)") auto
  note g' = tree_of_getitem[OF g keys]
  let ?iv = "\<lparr>iv_begin = s, iv_end = e, iv_data = id_act act\<rparr>"
  have iv: "interval_of act = Inr (s, e)" by (simp add: interval_of_def s e)
  show thesis
  proof (cases "overlaps_range tree s e")
    case True
    with step s e g have "trees' = trees1" by (simp add: pack_step_def)
    with g' True show thesis by (intro that[OF iv]) auto
  next
    case False
    with step s e g obtain tree' where add: "tree_add tree ?iv = Inr tree'"
      and t': "trees' = trees_store trees1 (schedule_id act) tree'"
      by (cases "tree_add tree ?iv") (auto simp: pack_step_def)
    have notin: "?iv \<notin> set tree"
    proof
      assume in_tree: "?iv \<in> set tree"
      with nonnull g'(1) have "s < e" by fastforce
      moreover from in_tree have "\<exists>iv\<in>set tree. iv_begin iv < e \<and> s < iv_end iv"
        using \<open>s < e\<close> by (intro bexI[of _ ?iv]) auto
      ultimately have "overlaps_range tree s e"
        using nonnull g'(1) by (subst overlaps_range_iff) auto
      with False show False by simp
    qed
    with add have se: "s < e" and tree': "tree' = tree @ [?iv]"
      by (auto simp: tree_add_def is_null_def split: if_splits)
    have "tree_of trees' = (tree_of trees)(schedule_id act := tree_of trees (schedule_id act) @ [?iv])"
      using g' by (auto simp: t' tree' tree_of_store fun_eq_iff)
    moreover have "distinct (map fst trees')" using g'(3) by (simp add: t' keys_trees_store)
    ultimately show thesis using False g'(1) se by (intro that[OF iv]) auto
  qed
qed


text \<open>
  The invariant of the first loop, on the trees and the activities seen so far: tracks
  are stored once; every stored interval is not null and is the interval of a seen
  activity of that track, tagged with its id; two different intervals of one tree share
  no point; and the first activity seen is stored.
\<close>

definition pack_inv :: "trees \<Rightarrow> track_activity list \<Rightarrow> bool" where
  "pack_inv trees seen \<longleftrightarrow>
     distinct (map fst trees)
     \<and> (\<forall>k. \<forall>iv\<in>set (tree_of trees k). iv_begin iv < iv_end iv
            \<and> (\<exists>a\<in>set seen. schedule_id a = k
                  \<and> interval_of a = Inr (iv_begin iv, iv_end iv) \<and> iv_data iv = id_act a))
     \<and> (\<forall>k. \<forall>iv\<in>set (tree_of trees k). \<forall>iv'\<in>set (tree_of trees k).
            iv \<noteq> iv' \<longrightarrow> \<not> (iv_begin iv < iv_end iv' \<and> iv_begin iv' < iv_end iv))
     \<and> (seen \<noteq> [] \<longrightarrow> (\<exists>s e. interval_of (hd seen) = Inr (s, e)
            \<and> \<lparr>iv_begin = s, iv_end = e, iv_data = id_act (hd seen)\<rparr>
                 \<in> set (tree_of trees (schedule_id (hd seen)))))"

lemma pack_inv_empty: "pack_inv [] []"
  by (simp add: pack_inv_def tree_of_def)

lemma pack_inv_step:
  assumes inv: "pack_inv trees seen" and step: "pack_step trees act = Inr trees'"
  shows "pack_inv trees' (seen @ [act])"
proof -
  from inv have keys: "distinct (map fst trees)"
    and src: "\<And>k iv. iv \<in> set (tree_of trees k) \<Longrightarrow> iv_begin iv < iv_end iv
            \<and> (\<exists>a\<in>set seen. schedule_id a = k
                  \<and> interval_of a = Inr (iv_begin iv, iv_end iv) \<and> iv_data iv = id_act a)"
    and disj: "\<And>k iv iv'. iv \<in> set (tree_of trees k) \<Longrightarrow> iv' \<in> set (tree_of trees k) \<Longrightarrow>
            iv \<noteq> iv' \<Longrightarrow> \<not> (iv_begin iv < iv_end iv' \<and> iv_begin iv' < iv_end iv)"
    and first: "seen \<noteq> [] \<Longrightarrow> (\<exists>s e. interval_of (hd seen) = Inr (s, e)
            \<and> \<lparr>iv_begin = s, iv_end = e, iv_data = id_act (hd seen)\<rparr>
                 \<in> set (tree_of trees (schedule_id (hd seen))))"
    unfolding pack_inv_def by blast+
  have nonnull: "\<forall>k. \<forall>iv\<in>set (tree_of trees k). iv_begin iv < iv_end iv"
    using src by blast
  let ?k = "schedule_id act"
  from pack_step_effect[OF step keys nonnull] obtain s e where iv: "interval_of act = Inr (s, e)"
    and keys': "distinct (map fst trees')"
    and same: "overlaps_range (tree_of trees ?k) s e \<Longrightarrow> tree_of trees' = tree_of trees"
    and added: "\<not> overlaps_range (tree_of trees ?k) s e \<Longrightarrow>
           s < e \<and> tree_of trees' = (tree_of trees)(?k :=
             tree_of trees ?k @ [\<lparr>iv_begin = s, iv_end = e, iv_data = id_act act\<rparr>])"
    by blast
  let ?iv = "\<lparr>iv_begin = s, iv_end = e, iv_data = id_act act\<rparr>"
  show ?thesis
  proof (cases "overlaps_range (tree_of trees ?k) s e")
    case True
    then have eq: "tree_of trees' = tree_of trees" by (rule same)
    from True have "tree_of trees ?k \<noteq> []" by (auto simp: overlaps_range_def)
    then obtain iv0 where "iv0 \<in> set (tree_of trees ?k)" by (cases "tree_of trees ?k") auto
    with src have "seen \<noteq> []" by fastforce
    with first have first': "\<exists>s e. interval_of (hd (seen @ [act])) = Inr (s, e)
            \<and> \<lparr>iv_begin = s, iv_end = e, iv_data = id_act (hd (seen @ [act]))\<rparr>
                 \<in> set (tree_of trees' (schedule_id (hd (seen @ [act]))))"
      by (simp add: eq)
    have src': "\<forall>k. \<forall>iv\<in>set (tree_of trees' k). iv_begin iv < iv_end iv
            \<and> (\<exists>a\<in>set (seen @ [act]). schedule_id a = k
                  \<and> interval_of a = Inr (iv_begin iv, iv_end iv) \<and> iv_data iv = id_act a)"
      using src unfolding eq by fastforce
    have disj': "\<forall>k. \<forall>iv\<in>set (tree_of trees' k). \<forall>iv'\<in>set (tree_of trees' k).
            iv \<noteq> iv' \<longrightarrow> \<not> (iv_begin iv < iv_end iv' \<and> iv_begin iv' < iv_end iv)"
      using disj unfolding eq by blast
    show ?thesis unfolding pack_inv_def using keys' src' disj' first' by blast
  next
    case False
    from added[OF False] have se: "s < e"
      and eq: "tree_of trees' = (tree_of trees)(?k := tree_of trees ?k @ [?iv])" by auto
    have mem: "iv \<in> set (tree_of trees' k) \<longleftrightarrow>
        iv \<in> set (tree_of trees k) \<or> (k = ?k \<and> iv = ?iv)" for k iv
      by (auto simp: eq)
    have free: "\<not> (iv_begin iv' < e \<and> s < iv_end iv')" if "iv' \<in> set (tree_of trees ?k)" for iv'
    proof -
      have "\<not> (\<exists>iv\<in>set (tree_of trees ?k). iv_begin iv < e \<and> s < iv_end iv)"
        using False nonnull se by (subst (asm) overlaps_range_iff) auto
      with that show ?thesis by blast
    qed
    have src': "\<forall>k. \<forall>iv\<in>set (tree_of trees' k). iv_begin iv < iv_end iv
            \<and> (\<exists>a\<in>set (seen @ [act]). schedule_id a = k
                  \<and> interval_of a = Inr (iv_begin iv, iv_end iv) \<and> iv_data iv = id_act a)"
    proof (intro allI ballI)
      fix k iv' assume "iv' \<in> set (tree_of trees' k)"
      then consider "iv' \<in> set (tree_of trees k)" | "k = ?k" "iv' = ?iv" by (auto simp: mem)
      then show "iv_begin iv' < iv_end iv'
            \<and> (\<exists>a\<in>set (seen @ [act]). schedule_id a = k
                  \<and> interval_of a = Inr (iv_begin iv', iv_end iv') \<and> iv_data iv' = id_act a)"
      proof cases
        case 1
        with src[OF 1] show ?thesis by fastforce
      next
        case 2
        with se iv show ?thesis by simp
      qed
    qed
    have disj': "\<forall>k. \<forall>iv\<in>set (tree_of trees' k). \<forall>iv'\<in>set (tree_of trees' k).
            iv \<noteq> iv' \<longrightarrow> \<not> (iv_begin iv < iv_end iv' \<and> iv_begin iv' < iv_end iv)"
    proof (intro allI ballI impI)
      fix k iv1 iv2
      assume a: "iv1 \<in> set (tree_of trees' k)" "iv2 \<in> set (tree_of trees' k)" "iv1 \<noteq> iv2"
      from a(1) consider "iv1 \<in> set (tree_of trees k)" | "k = ?k" "iv1 = ?iv" by (auto simp: mem)
      then show "\<not> (iv_begin iv1 < iv_end iv2 \<and> iv_begin iv2 < iv_end iv1)"
      proof cases
        case 1
        from a(2) consider "iv2 \<in> set (tree_of trees k)" | "k = ?k" "iv2 = ?iv"
          by (auto simp: mem)
        then show ?thesis
        proof cases
          case old: 1
          from disj[OF 1 old a(3)] show ?thesis .
        next
          case new: 2
          with 1 free[of iv1] show ?thesis by auto
        qed
      next
        case 2
        with a(2,3) have "iv2 \<in> set (tree_of trees ?k)" by (auto simp: mem)
        from free[OF this] 2 show ?thesis by auto
      qed
    qed
    have first': "\<exists>s e. interval_of (hd (seen @ [act])) = Inr (s, e)
            \<and> \<lparr>iv_begin = s, iv_end = e, iv_data = id_act (hd (seen @ [act]))\<rparr>
                 \<in> set (tree_of trees' (schedule_id (hd (seen @ [act]))))"
    proof (cases "seen = []")
      case True
      with iv show ?thesis by (simp add: mem)
    next
      case False
      with first show ?thesis by (auto simp: mem)
    qed
    show ?thesis unfolding pack_inv_def using keys' src' disj' first' by blast
  qed
qed

lemma pack_inv_loop:
  "pack_inv trees seen \<Longrightarrow> pack_loop trees rest = Inr trees' \<Longrightarrow> pack_inv trees' (seen @ rest)"
proof (induction rest arbitrary: trees seen)
  case Nil
  then show ?case by simp
next
  case (Cons act rest)
  from Cons.prems(2) obtain trees1 where step: "pack_step trees act = Inr trees1"
    and loop: "pack_loop trees1 rest = Inr trees'"
    by (cases "pack_step trees act") auto
  from Cons.IH[OF pack_inv_step[OF Cons.prems(1) step] loop] show ?case by simp
qed

lemma ordered_ids_iff:
  assumes "distinct (map fst trees)"
  shows "x \<in> set (ordered_ids_of trees) \<longleftrightarrow> (\<exists>k. \<exists>iv\<in>set (tree_of trees k). iv_data iv = x)"
proof
  assume "x \<in> set (ordered_ids_of trees)"
  then obtain k tree iv where "(k, tree) \<in> set trees" "iv \<in> set tree" "iv_data iv = x"
    by (auto simp: ordered_ids_of_def)
  moreover from this(1) assms have "map_of trees k = Some tree" by simp
  then have "tree_of trees k = tree" by (simp add: tree_of_def)
  ultimately show "\<exists>k. \<exists>iv\<in>set (tree_of trees k). iv_data iv = x"
    by blast
next
  assume "\<exists>k. \<exists>iv\<in>set (tree_of trees k). iv_data iv = x"
  then obtain k iv where iv: "iv \<in> set (tree_of trees k)" "iv_data iv = x" by blast
  then obtain tree where "map_of trees k = Some tree" "iv \<in> set tree"
    by (cases "map_of trees k") (auto simp: tree_of_def)
  then have "(k, tree) \<in> set trees" by (auto dest: map_of_SomeD)
  with \<open>iv \<in> set tree\<close> iv(2) show "x \<in> set (ordered_ids_of trees)"
    by (force simp: ordered_ids_of_def)
qed

lemma optimum_timetable_trees:
  assumes "optimum_timetable input = Inr ids"
  obtains trees where "pack_loop [] input = Inr trees" "ids = ordered_ids_of trees"
    "pack_inv trees input"
proof -
  from assms obtain trees where t: "pack_loop [] input = Inr trees" "ids = ordered_ids_of trees"
    by (cases "pack_loop [] input") (auto simp: optimum_timetable_def)
  from pack_inv_loop[OF pack_inv_empty t(1)] have "pack_inv trees input" by simp
  with t show thesis by (rule that)
qed

text \<open>An id of the output belongs to a stored interval of the activity that carries it.\<close>

lemma selected_stored:
  assumes inv: "pack_inv trees input" and d: "distinct (map id_act input)"
    and a: "a \<in> set input" and sel: "id_act a \<in> set (ordered_ids_of trees)"
  obtains s e where "interval_of a = Inr (s, e)" "s < e"
    "\<lparr>iv_begin = s, iv_end = e, iv_data = id_act a\<rparr> \<in> set (tree_of trees (schedule_id a))"
proof -
  from inv have keys: "distinct (map fst trees)" by (simp add: pack_inv_def)
  from sel obtain k iv where iv: "iv \<in> set (tree_of trees k)" "iv_data iv = id_act a"
    by (auto simp: ordered_ids_iff[OF keys])
  from inv iv(1) obtain a' where a': "iv_begin iv < iv_end iv" "a' \<in> set input"
    "schedule_id a' = k" "interval_of a' = Inr (iv_begin iv, iv_end iv)" "iv_data iv = id_act a'"
    unfolding pack_inv_def by blast
  from d have "inj_on id_act (set input)" by (simp add: distinct_map)
  with a a'(2,5) iv(2) have "a' = a" by (auto dest: inj_onD)
  have "\<lparr>iv_begin = iv_begin iv, iv_end = iv_end iv, iv_data = id_act a\<rparr> = iv"
    using iv(2) by simp
  with iv(1) a'(3) \<open>a' = a\<close> have
    "\<lparr>iv_begin = iv_begin iv, iv_end = iv_end iv, iv_data = id_act a\<rparr>
       \<in> set (tree_of trees (schedule_id a))" by simp
  with a'(1,4) \<open>a' = a\<close> show thesis by (intro that[of "iv_begin iv" "iv_end iv"]) simp_all
qed


lemmas pack_defs = optimum_timetable_def pack_step_def trees_getitem_def trees_store_def
  tree_add_def is_null_def overlaps_range_def overlaps_point_def contains_point_def
  boundary_table_def ordered_ids_of_def time_to_minutes_def strptime_HMS_def is_digit_def
  digit_val_def track_act_def

lemma scenario_run:
  "optimum_timetable [track_act 1 1 ''08:00:00'' ''09:00:00'', track_act 2 1 ''08:30:00'' ''09:30:00'',
      track_act 3 1 ''09:00:00'' ''10:00:00''] = Inr [1, 3]"
  by (simp add: pack_defs)

lemma scenario_intervals:
  "interval_of (track_act 1 1 ''08:00:00'' ''09:00:00'') = Inr (480, 540)"
  "interval_of (track_act 2 1 ''08:30:00'' ''09:30:00'') = Inr (510, 570)"
  "interval_of (track_act 3 1 ''09:00:00'' ''10:00:00'') = Inr (540, 600)"
  by (simp_all add: interval_of_def pack_defs)

text \<open>
  What the packer guarantees is stated on the intervals it computes with
  \<open>time_to_minutes\<close>. When it returns ids for an input whose activities have pairwise
  different ids, two different selected activities of one track have computed intervals
  that share no point, and an activity whose computed interval shares a point with that of
  an earlier selected activity of its track is not selected.
\<close>

lemma computed_intervals_disjoint:
  assumes "optimum_timetable input = Inr ids" and "distinct (map id_act input)"
    and "a \<in> set input" and "b \<in> set input" and "a \<noteq> b"
    and "id_act a \<in> set ids" and "id_act b \<in> set ids"
    and "schedule_id a = schedule_id b"
  shows "\<exists>ia ib. interval_of a = Inr ia \<and> interval_of b = Inr ib \<and> \<not> intervals_overlap ia ib"
proof -
  from assms(1) obtain trees where t: "ids = ordered_ids_of trees" "pack_inv trees input"
    by (rule optimum_timetable_trees)
  from selected_stored[OF t(2) assms(2,3)] assms(6) t(1) obtain s1 e1 where
    ia: "interval_of a = Inr (s1, e1)" "s1 < e1"
      "\<lparr>iv_begin = s1, iv_end = e1, iv_data = id_act a\<rparr> \<in> set (tree_of trees (schedule_id a))"
    by auto
  from selected_stored[OF t(2) assms(2,4)] assms(7) t(1) obtain s2 e2 where
    ib: "interval_of b = Inr (s2, e2)" "s2 < e2"
      "\<lparr>iv_begin = s2, iv_end = e2, iv_data = id_act b\<rparr> \<in> set (tree_of trees (schedule_id b))"
    by auto
  from assms(2) have "inj_on id_act (set input)" by (simp add: distinct_map)
  with assms(3,4,5) have "id_act a \<noteq> id_act b" by (auto dest: inj_onD)
  then have "\<lparr>iv_begin = s1, iv_end = e1, iv_data = id_act a\<rparr>
      \<noteq> \<lparr>iv_begin = s2, iv_end = e2, iv_data = id_act b\<rparr>" by simp
  with t(2) ia(3) ib(3) assms(8) have "\<not> (s1 < e2 \<and> s2 < e1)"
    unfolding pack_inv_def by fastforce
  then have "\<not> intervals_overlap (s1, e1) (s2, e2)"
    by (auto simp: intervals_overlap_iff)
  with ia(1) ib(1) show ?thesis by blast
qed

lemma computed_overlap_blocks_later:
  assumes "optimum_timetable input = Inr ids" and "distinct (map id_act input)"
    and "i < j" and "j < length input"
    and "schedule_id (input ! i) = schedule_id (input ! j)"
    and "interval_of (input ! i) = Inr ia" and "interval_of (input ! j) = Inr ib"
    and "intervals_overlap ia ib"
    and "id_act (input ! i) \<in> set ids"
  shows "id_act (input ! j) \<notin> set ids"
proof
  assume sel: "id_act (input ! j) \<in> set ids"
  from assms(1) obtain trees where t: "ids = ordered_ids_of trees" "pack_inv trees input"
    by (rule optimum_timetable_trees)
  have mem: "input ! i \<in> set input" "input ! j \<in> set input" using assms(3,4) by auto
  from assms(2,3,4) have idne: "id_act (input ! i) \<noteq> id_act (input ! j)"
    using nth_eq_iff_index_eq[of "map id_act input" i j] by auto
  have sel_i: "id_act (input ! i) \<in> set (ordered_ids_of trees)" using assms(9) t(1) by simp
  have sel_j: "id_act (input ! j) \<in> set (ordered_ids_of trees)" using sel t(1) by simp
  from selected_stored[OF t(2) assms(2) mem(1) sel_i] obtain s1 e1 where
    ia': "interval_of (input ! i) = Inr (s1, e1)"
    and ia2: "\<lparr>iv_begin = s1, iv_end = e1, iv_data = id_act (input ! i)\<rparr>
         \<in> set (tree_of trees (schedule_id (input ! i)))"
    by blast
  from selected_stored[OF t(2) assms(2) mem(2) sel_j] obtain s2 e2 where
    ib': "interval_of (input ! j) = Inr (s2, e2)"
    and ib2: "\<lparr>iv_begin = s2, iv_end = e2, iv_data = id_act (input ! j)\<rparr>
         \<in> set (tree_of trees (schedule_id (input ! j)))"
    by blast
  have ia: "ia = (s1, e1)" using ia' assms(6) by simp
  have ib: "ib = (s2, e2)" using ib' assms(7) by simp
  from idne have "\<lparr>iv_begin = s1, iv_end = e1, iv_data = id_act (input ! i)\<rparr>
      \<noteq> \<lparr>iv_begin = s2, iv_end = e2, iv_data = id_act (input ! j)\<rparr>" by simp
  with t(2) ia2 ib2 assms(5) have "\<not> (s1 < e2 \<and> s2 < e1)"
    unfolding pack_inv_def by fastforce
  moreover from assms(8) have "s1 < e2 \<and> s2 < e1"
    by (auto simp: ia ib intervals_overlap_iff)
  ultimately show False by simp
qed

text \<open>
  From 08:00 on the computed minutes are those of the specification, so that the two
  facts above speak of the specified intervals when no time of the input is before 08:00.
\<close>

lemma time_to_minutes_from_8:
  assumes "strptime_HMS t = Inr t'" and "8 \<le> hour t'"
  shows "time_to_minutes t = spec_time_to_minutes t"
  using assms by (simp add: time_to_minutes_def spec_time_to_minutes_def)

lemma interval_of_from_8:
  assumes "strptime_HMS (start_time act) = Inr t1" and "8 \<le> hour t1"
    and "strptime_HMS (end_time act) = Inr t2" and "8 \<le> hour t2"
  shows "interval_of act = spec_interval_of act"
  using assms
  by (simp add: interval_of_def spec_interval_of_def time_to_minutes_def
      spec_time_to_minutes_def)

text \<open>
  C5. Any two activities of one track whose ids are in the output are claimed to have
  intervals that do not overlap. For an hour below 8 the packer computes
  \<open>hour + 24 + minute + 24*60\<close>: the activities 00:00 to 01:00 and 00:30 to 01:30 of track 1
  get the computed intervals \<open>[1464, 1465)\<close> and \<open>[1494, 1495)\<close>, and the ids of both are
  returned, although the two overlap from 00:30 to 01:00, on the specified timeline
  (\<open>[1440, 1500)\<close> and \<open>[1470, 1530)\<close>) as on the clock.
\<close>

theorem overlapping_night_activities_selected:
  "optimum_timetable [track_act 1 1 ''00:00:00'' ''01:00:00'',
                      track_act 2 1 ''00:30:00'' ''01:30:00''] = Inr [1, 2]
   \<and> schedule_id (track_act 1 1 ''00:00:00'' ''01:00:00'')
       = schedule_id (track_act 2 1 ''00:30:00'' ''01:30:00'')
   \<and> spec_interval_of (track_act 1 1 ''00:00:00'' ''01:00:00'') = Inr (1440, 1500)
   \<and> spec_interval_of (track_act 2 1 ''00:30:00'' ''01:30:00'') = Inr (1470, 1530)
   \<and> intervals_overlap (1440, 1500) (1470, 1530)
   \<and> clock_interval_of (track_act 1 1 ''00:00:00'' ''01:00:00'') = Inr (0, 60)
   \<and> clock_interval_of (track_act 2 1 ''00:30:00'' ''01:30:00'') = Inr (30, 90)
   \<and> intervals_overlap (0, 60) (30, 90)
   \<and> interval_of (track_act 1 1 ''00:00:00'' ''01:00:00'') = Inr (1464, 1465)
   \<and> interval_of (track_act 2 1 ''00:30:00'' ''01:30:00'') = Inr (1494, 1495)"
proof -
  have "optimum_timetable [track_act 1 1 ''00:00:00'' ''01:00:00'',
                      track_act 2 1 ''00:30:00'' ''01:30:00''] = Inr [1, 2]"
    by (simp add: pack_defs)
  moreover have "schedule_id (track_act 1 1 ''00:00:00'' ''01:00:00'')
       = schedule_id (track_act 2 1 ''00:30:00'' ''01:30:00'')"
    by (simp add: track_act_def)
  moreover have "spec_interval_of (track_act 1 1 ''00:00:00'' ''01:00:00'') = Inr (1440, 1500)"
    "spec_interval_of (track_act 2 1 ''00:30:00'' ''01:30:00'') = Inr (1470, 1530)"
    by (simp_all add: spec_interval_of_def spec_time_to_minutes_def strptime_HMS_def
        is_digit_def digit_val_def track_act_def)
  moreover have "intervals_overlap (1440, 1500) (1470, 1530)" "intervals_overlap (0, 60) (30, 90)"
    by (simp_all add: intervals_overlap_iff)
  moreover have "clock_interval_of (track_act 1 1 ''00:00:00'' ''01:00:00'') = Inr (0, 60)"
    "clock_interval_of (track_act 2 1 ''00:30:00'' ''01:30:00'') = Inr (30, 90)"
    by (simp_all add: clock_interval_of_def clock_minutes_def strptime_HMS_def
        is_digit_def digit_val_def track_act_def)
  moreover have "interval_of (track_act 1 1 ''00:00:00'' ''01:00:00'') = Inr (1464, 1465)"
    "interval_of (track_act 2 1 ''00:30:00'' ''01:30:00'') = Inr (1494, 1495)"
    by (simp_all add: interval_of_def pack_defs)
  ultimately show ?thesis by (intro conjI)
qed

text \<open>
  C6. An activity that follows a selected activity of its track and overlaps it is claimed
  not to be selected. The activity 02:00 to 03:00 of track 1 comes first and is selected;
  the activity 02:15 to 03:15 of the same track comes second, overlaps it from 02:15 to
  03:00, and is selected as well: the computed intervals are \<open>[1466, 1467)\<close> and
  \<open>[1481, 1482)\<close>.
\<close>

theorem later_overlapping_activity_selected:
  "optimum_timetable [track_act 1 1 ''02:00:00'' ''03:00:00'',
                      track_act 2 1 ''02:15:00'' ''03:15:00''] = Inr [1, 2]
   \<and> schedule_id ([track_act 1 1 ''02:00:00'' ''03:00:00'',
                     track_act 2 1 ''02:15:00'' ''03:15:00''] ! 0)
       = schedule_id ([track_act 1 1 ''02:00:00'' ''03:00:00'',
                       track_act 2 1 ''02:15:00'' ''03:15:00''] ! 1)
   \<and> spec_interval_of ([track_act 1 1 ''02:00:00'' ''03:00:00'',
                          track_act 2 1 ''02:15:00'' ''03:15:00''] ! 0) = Inr (1560, 1620)
   \<and> spec_interval_of ([track_act 1 1 ''02:00:00'' ''03:00:00'',
                          track_act 2 1 ''02:15:00'' ''03:15:00''] ! 1) = Inr (1575, 1635)
   \<and> intervals_overlap (1560, 1620) (1575, 1635)
   \<and> clock_interval_of ([track_act 1 1 ''02:00:00'' ''03:00:00'',
                           track_act 2 1 ''02:15:00'' ''03:15:00''] ! 0) = Inr (120, 180)
   \<and> clock_interval_of ([track_act 1 1 ''02:00:00'' ''03:00:00'',
                           track_act 2 1 ''02:15:00'' ''03:15:00''] ! 1) = Inr (135, 195)
   \<and> intervals_overlap (120, 180) (135, 195)
   \<and> id_act ([track_act 1 1 ''02:00:00'' ''03:00:00'',
                 track_act 2 1 ''02:15:00'' ''03:15:00''] ! 0) \<in> set [1, 2]
   \<and> id_act ([track_act 1 1 ''02:00:00'' ''03:00:00'',
                 track_act 2 1 ''02:15:00'' ''03:15:00''] ! 1) \<in> set [1, 2]"
proof -
  have "optimum_timetable [track_act 1 1 ''02:00:00'' ''03:00:00'',
                      track_act 2 1 ''02:15:00'' ''03:15:00''] = Inr [1, 2]"
    by (simp add: pack_defs)
  moreover have "spec_interval_of (track_act 1 1 ''02:00:00'' ''03:00:00'') = Inr (1560, 1620)"
    "spec_interval_of (track_act 2 1 ''02:15:00'' ''03:15:00'') = Inr (1575, 1635)"
    by (simp_all add: spec_interval_of_def spec_time_to_minutes_def strptime_HMS_def
        is_digit_def digit_val_def track_act_def)
  moreover have "intervals_overlap (1560, 1620) (1575, 1635)"
    "intervals_overlap (120, 180) (135, 195)"
    by (simp_all add: intervals_overlap_iff)
  moreover have "clock_interval_of (track_act 1 1 ''02:00:00'' ''03:00:00'') = Inr (120, 180)"
    "clock_interval_of (track_act 2 1 ''02:15:00'' ''03:15:00'') = Inr (135, 195)"
    by (simp_all add: clock_interval_of_def clock_minutes_def strptime_HMS_def
        is_digit_def digit_val_def track_act_def)
  moreover have "id_act (track_act 1 1 ''02:00:00'' ''03:00:00'') = 1"
    "id_act (track_act 2 1 ''02:15:00'' ''03:15:00'') = 2"
    "schedule_id (track_act 1 1 ''02:00:00'' ''03:00:00'')
       = schedule_id (track_act 2 1 ''02:15:00'' ''03:15:00'')"
    by (simp_all add: track_act_def)
  ultimately show ?thesis by simp
qed




text \<open>
  C7. Intervals are half-open. Two activities of one track of which one ends where the
  other starts are both admitted, in either order of priority, and the output lists them
  by start. Intervals that touch share no point, and the container's test finds no
  overlap between them. The scenario in minutes, on the container: \<open>[0, 60)\<close> is stored,
  \<open>[30, 90)\<close> overlaps it, \<open>[60, 120)\<close> does not and is stored, and the ids by start are
  \<open>[1, 3]\<close>. The same scenario through the packer, the minutes counted from 08:00 (no
  time string is normalized to 0), selects exactly the ids \<open>[1, 3]\<close>.
\<close>

theorem touching_intervals_do_not_overlap:
  "(interval_of a = Inr (s, m) \<and> interval_of b = Inr (m, e) \<and> s < m \<and> m < e
      \<and> schedule_id a = schedule_id b \<longrightarrow>
        optimum_timetable [a, b] = Inr [id_act a, id_act b]
        \<and> optimum_timetable [b, a] = Inr [id_act a, id_act b])
   \<and> \<not> intervals_overlap (s, m) (m, e)
   \<and> \<not> overlaps_range [\<lparr>iv_begin = s, iv_end = m, iv_data = d\<rparr>] m e
   \<and> \<not> overlaps_range [\<lparr>iv_begin = m, iv_end = e, iv_data = d\<rparr>] s m
   \<and> \<not> overlaps_range [] 0 60
   \<and> tree_add [] \<lparr>iv_begin = 0, iv_end = 60, iv_data = 1\<rparr>
        = Inr [\<lparr>iv_begin = 0, iv_end = 60, iv_data = 1\<rparr>]
   \<and> overlaps_range [\<lparr>iv_begin = 0, iv_end = 60, iv_data = 1\<rparr>] 30 90
   \<and> \<not> overlaps_range [\<lparr>iv_begin = 0, iv_end = 60, iv_data = 1\<rparr>] 60 120
   \<and> tree_add [\<lparr>iv_begin = 0, iv_end = 60, iv_data = 1\<rparr>]
          \<lparr>iv_begin = 60, iv_end = 120, iv_data = 3\<rparr>
        = Inr [\<lparr>iv_begin = 0, iv_end = 60, iv_data = 1\<rparr>,
               \<lparr>iv_begin = 60, iv_end = 120, iv_data = 3\<rparr>]
   \<and> ordered_ids_of [(1, [\<lparr>iv_begin = 0, iv_end = 60, iv_data = 1\<rparr>,
                           \<lparr>iv_begin = 60, iv_end = 120, iv_data = 3\<rparr>])] = [1, 3]
   \<and> optimum_timetable [track_act 1 1 ''08:00:00'' ''09:00:00'', track_act 2 1 ''08:30:00'' ''09:30:00'',
      track_act 3 1 ''09:00:00'' ''10:00:00''] = Inr [1, 3]"
proof (intro conjI impI)
  assume h: "interval_of a = Inr (s, m) \<and> interval_of b = Inr (m, e) \<and> s < m \<and> m < e
      \<and> schedule_id a = schedule_id b"
  then have t: "time_to_minutes (start_time a) = Inr s" "time_to_minutes (end_time a) = Inr m"
    "time_to_minutes (start_time b) = Inr m" "time_to_minutes (end_time b) = Inr e"
    by (auto simp: interval_of_def split: sum.splits)
  from h t show "optimum_timetable [a, b] = Inr [id_act a, id_act b]"
    by (simp add: optimum_timetable_def pack_step_def trees_getitem_def trees_store_def
        tree_add_def is_null_def overlaps_range_def overlaps_point_def contains_point_def
        boundary_table_def ordered_ids_of_def)
  from h t show "optimum_timetable [b, a] = Inr [id_act a, id_act b]"
    by (simp add: optimum_timetable_def pack_step_def trees_getitem_def trees_store_def
        tree_add_def is_null_def overlaps_range_def overlaps_point_def contains_point_def
        boundary_table_def ordered_ids_of_def)
next
  show "\<not> intervals_overlap (s, m) (m, e)" by (simp add: intervals_overlap_iff)
next
  show "\<not> overlaps_range [\<lparr>iv_begin = s, iv_end = m, iv_data = d\<rparr>] m e"
    by (auto simp: overlaps_range_def overlaps_point_def contains_point_def boundary_table_def)
next
  show "\<not> overlaps_range [\<lparr>iv_begin = m, iv_end = e, iv_data = d\<rparr>] s m"
    by (auto simp: overlaps_range_def overlaps_point_def contains_point_def boundary_table_def)
next
  show "optimum_timetable [track_act 1 1 ''08:00:00'' ''09:00:00'', track_act 2 1 ''08:30:00'' ''09:30:00'',
      track_act 3 1 ''09:00:00'' ''10:00:00''] = Inr [1, 3]" by (rule scenario_run)
qed (simp_all add: overlaps_range_def overlaps_point_def contains_point_def boundary_table_def
    tree_add_def is_null_def ordered_ids_of_def)

theorem touching_intervals_do_not_overlap_witness:
  "interval_of (track_act 1 1 ''08:00:00'' ''09:00:00'') = Inr (480, 540)
   \<and> interval_of (track_act 3 1 ''09:00:00'' ''10:00:00'') = Inr (540, 600)
   \<and> optimum_timetable [track_act 1 1 ''08:00:00'' ''09:00:00'',
        track_act 3 1 ''09:00:00'' ''10:00:00''] = Inr [1, 3]
   \<and> optimum_timetable [track_act 3 1 ''09:00:00'' ''10:00:00'',
        track_act 1 1 ''08:00:00'' ''09:00:00''] = Inr [1, 3]"
proof -
  let ?a = "track_act 1 1 ''08:00:00'' ''09:00:00''"
  let ?b = "track_act 3 1 ''09:00:00'' ''10:00:00''"
  have h: "interval_of ?a = Inr (480, 540) \<and> interval_of ?b = Inr (540, 600)
      \<and> (480::int) < 540 \<and> (540::int) < 600 \<and> schedule_id ?a = schedule_id ?b"
    by (simp add: scenario_intervals) (simp add: track_act_def)
  have ids: "id_act ?a = 1" "id_act ?b = 3" by (simp_all add: track_act_def)
  from touching_intervals_do_not_overlap[of ?a 480 540 ?b 600 0] h
  have "optimum_timetable [?a, ?b] = Inr [id_act ?a, id_act ?b]
      \<and> optimum_timetable [?b, ?a] = Inr [id_act ?a, id_act ?b]" by blast
  with h show ?thesis by (simp only: ids)
qed

section \<open>Optimality of the weighted scheduler\<close>

text \<open>
  The table after the loop: at every position \<open>j\<close> the entry is the maximum of the entry
  before it (the initial \<open>-1\<close> at \<open>j = 0\<close>, where \<open>dp_table[-1]\<close> reads the last entry)
  and of the value of the activity plus the entry of its predecessor.
\<close>

definition dp_entry :: "valued_activity list \<Rightarrow> int list \<Rightarrow> nat \<Rightarrow> bool" where
  "dp_entry activities dp_table j \<longleftrightarrow>
     (\<exists>p. prev activities (int j) = Inr p \<and>
        dp_table ! j = max (if j = 0 then - 1 else dp_table ! (j - 1))
                           (value_act (activities ! j) + (if 0 \<le> p then dp_table ! nat p else 0)))"

definition dp_filled :: "valued_activity list \<Rightarrow> int list \<Rightarrow> nat \<Rightarrow> bool" where
  "dp_filled activities dp_table k \<longleftrightarrow>
     length dp_table = length activities
     \<and> (\<forall>j<k. dp_entry activities dp_table j)
     \<and> (\<forall>j. k \<le> j \<and> j < length activities \<longrightarrow> dp_table ! j = - 1)"

lemma dp_entry_cong:
  assumes "dp_entry activities d j" "\<forall>i\<le>j. d' ! i = d ! i"
  shows "dp_entry activities d' j"
proof -
  from assms(1) obtain p where p: "prev activities (int j) = Inr p"
    "d ! j = max (if j = 0 then - 1 else d ! (j - 1))
                 (value_act (activities ! j) + (if 0 \<le> p then d ! nat p else 0))"
    unfolding dp_entry_def by blast
  from prev_result[OF p(1)] have "p < int j" by simp
  then have "0 \<le> p \<Longrightarrow> nat p \<le> j" by auto
  with assms(2) have "d' ! j = d ! j" "j \<noteq> 0 \<Longrightarrow> d' ! (j - 1) = d ! (j - 1)"
    "0 \<le> p \<Longrightarrow> d' ! nat p = d ! nat p" by auto
  with p show ?thesis unfolding dp_entry_def by (intro exI[of _ p]) auto
qed

lemma dp_filled_step:
  assumes f: "dp_filled activities d k" and k: "k < length activities"
  shows "\<exists>d'. dp_step activities d (int k) = Inr d' \<and> dp_filled activities d' (Suc k)"
proof -
  from f have len: "length d = length activities"
    and ent: "\<And>j. j < k \<Longrightarrow> dp_entry activities d j"
    and rest: "\<And>j. k \<le> j \<Longrightarrow> j < length activities \<Longrightarrow> d ! j = - 1"
    unfolding dp_filled_def by auto
  from prev_returns[of "int k" activities] k obtain p where p: "prev activities (int k) = Inr p"
    by auto
  from prev_result[OF p] have pb: "- 1 \<le> p" "p < int k" by auto
  define before where
    "before = (if int k = 0 then d ! (length d - 1) else d ! nat (int k - 1))"
  define with_p where "with_p = (if 0 \<le> p then d ! nat p else 0)"
  define d' where "d' = d[k := max before (value_act (activities ! k) + with_p)]"
  have "dp_step activities d (int k) =
      Inr (d[nat (int k) := max (if int k = 0 then d ! (length d - 1) else d ! nat (int k - 1))
                (value_act (activities ! nat (int k)) + (if 0 \<le> p then d ! nat p else 0))])"
    using k len p by (intro dp_step_in_range) auto
  then have step: "dp_step activities d (int k) = Inr d'"
    by (simp add: d'_def before_def with_p_def)
  have last: "k = 0 \<Longrightarrow> d ! (length d - 1) = - 1"
    using rest[of "length d - 1"] k len by auto
  have lend: "length d' = length activities" using len by (simp add: d'_def)
  have old: "d' ! i = d ! i" if "i \<noteq> k" for i using that by (simp add: d'_def)
  have atk: "d' ! k = max before (value_act (activities ! k) + with_p)"
    using k len by (simp add: d'_def)
  have before: "before = (if k = 0 then - 1 else d' ! (k - 1))"
  proof (cases "k = 0")
    case True
    with last show ?thesis by (simp add: before_def)
  next
    case False
    then have "nat (int k - 1) = k - 1" "k - 1 \<noteq> k" by auto
    with False old[of "k - 1"] show ?thesis by (simp add: before_def)
  qed
  have withp: "with_p = (if 0 \<le> p then d' ! nat p else 0)"
  proof (cases "0 \<le> p")
    case True
    with pb have "nat p \<noteq> k" by auto
    with True old[of "nat p"] show ?thesis by (simp add: with_p_def)
  next
    case False
    then show ?thesis by (simp add: with_p_def)
  qed
  have entk: "dp_entry activities d' k"
    unfolding dp_entry_def
  proof (intro exI[of _ p] conjI)
    show "prev activities (int k) = Inr p" by (rule p)
    show "d' ! k = max (if k = 0 then - 1 else d' ! (k - 1))
        (value_act (activities ! k) + (if 0 \<le> p then d' ! nat p else 0))"
      using atk before withp by simp
  qed
  have ents: "dp_entry activities d' j" if "j < Suc k" for j
  proof (cases "j = k")
    case False
    with that have "j < k" by simp
    then have "\<forall>i\<le>j. d' ! i = d ! i" using old by auto
    from dp_entry_cong[OF ent[OF \<open>j < k\<close>] this] show ?thesis .
  next
    case True
    with entk show ?thesis by simp
  qed
  have rests: "d' ! j = - 1" if "Suc k \<le> j" "j < length activities" for j
  proof -
    from that have "j \<noteq> k" "k \<le> j" by auto
    with rest[of j] that(2) old[of j] show ?thesis by simp
  qed
  have "dp_filled activities d' (Suc k)"
    unfolding dp_filled_def
  proof (intro conjI allI impI)
    show "length d' = length activities" by (rule lend)
  next
    fix j assume "j < Suc k"
    then show "dp_entry activities d' j" by (rule ents)
  next
    fix j assume "Suc k \<le> j \<and> j < length activities"
    then show "d' ! j = - 1" using rests by blast
  qed
  with step show ?thesis by blast
qed

lemma dp_filled_loop:
  assumes "dp_filled activities d k" "k \<le> length activities"
  shows "\<exists>d'. dp_loop activities d (map int [k..<length activities]) = Inr d'
           \<and> dp_filled activities d' (length activities)"
  using assms
proof (induction "length activities - k" arbitrary: d k)
  case 0
  then show ?case by simp
next
  case (Suc m)
  then have k: "k < length activities" by simp
  from dp_filled_step[OF Suc.prems(1) k] obtain d1 where
    d1: "dp_step activities d (int k) = Inr d1" "dp_filled activities d1 (Suc k)" by blast
  have "\<exists>d'. dp_loop activities d1 (map int [Suc k..<length activities]) = Inr d'
           \<and> dp_filled activities d' (length activities)"
    using Suc.hyps(2) k by (intro Suc.hyps(1)[OF _ d1(2)]) auto
  with d1(1) k show ?case by (simp add: upt_conv_Cons)
qed

lemma dp_table_filled:
  "\<exists>dp_table. dp_table_of activities (length activities) = Inr dp_table
      \<and> dp_filled activities dp_table (length activities)"
proof -
  have "dp_filled activities (replicate (length activities) (- 1)) 0"
    by (simp add: dp_filled_def)
  from dp_filled_loop[OF this] show ?thesis
    by (simp add: dp_table_of_def range_n_def)
qed

lemma ends_before_no_overlap:
  "end_time a \<le> start_time b \<Longrightarrow> \<not> acts_overlap a b \<and> \<not> acts_overlap b a"
  by (auto simp: acts_overlap_def intervals_overlap_iff)

lemma no_overlap_ends_before:
  assumes "start_time a < end_time a" "end_time a \<le> end_time b" "\<not> acts_overlap a b"
  shows "end_time a \<le> start_time b"
  using assms by (auto simp: acts_overlap_def intervals_overlap_iff)

lemma compatible_subset: "compatible activities S \<Longrightarrow> T \<subseteq> S \<Longrightarrow> compatible activities T"
  unfolding compatible_def by blast

lemma dp_upper_bound:
  assumes srt: "sorted (map end_time activities)"
    and proper: "\<forall>a\<in>set activities. start_time a < end_time a"
    and filled: "dp_filled activities dp (length activities)"
    and v0: "activities \<noteq> [] \<longrightarrow> 0 \<le> value_act (activities ! 0)"
  shows "k < length activities \<Longrightarrow> S \<subseteq> {..k} \<Longrightarrow> compatible activities S \<Longrightarrow>
           total_value activities S \<le> dp ! k"
proof (induction k arbitrary: S rule: less_induct)
  case (less k)
  have fin: "finite S" using less.prems(2) by (rule finite_subset) simp
  from filled less.prems(1) have "dp_entry activities dp k" unfolding dp_filled_def by blast
  then obtain p where p: "prev activities (int k) = Inr p"
    and dpk: "dp ! k = max (if k = 0 then - 1 else dp ! (k - 1))
                 (value_act (activities ! k) + (if 0 \<le> p then dp ! nat p else 0))"
    unfolding dp_entry_def by blast
  from prev_search[OF srt, of "int k"] less.prems(1) p have pb: "- 1 \<le> p" "p < int k"
    and far: "\<And>j. p < j \<Longrightarrow> j < int k \<Longrightarrow>
        \<not> end_time (activities ! nat j) \<le> start_time (activities ! nat (int k))"
    by auto
  show ?case
  proof (cases "k \<in> S")
    case False
    show ?thesis
    proof (cases "k = 0")
      case True
      with False less.prems(2) have "S = {}" by (auto simp: atMost_def)
      moreover from True pb have "\<not> 0 \<le> p" by simp
      moreover from less.prems(1) v0 True have "0 \<le> value_act (activities ! k)" by auto
      ultimately show ?thesis using dpk True by (simp add: total_value_def)
    next
      case k: False
      have "S \<subseteq> {..k - 1}"
      proof
        fix j assume j: "j \<in> S"
        with less.prems(2) have "j \<le> k" by (auto simp: atMost_def)
        moreover from j False have "j \<noteq> k" by blast
        ultimately show "j \<in> {..k - 1}" by simp
      qed
      from less.IH[OF _ _ this less.prems(3)] k less.prems(1)
      have "total_value activities S \<le> dp ! (k - 1)" by simp
      with dpk k show ?thesis by simp
    qed
  next
    case True
    let ?S = "S - {k}"
    have split: "total_value activities S = value_act (activities ! k) + total_value activities ?S"
      unfolding total_value_def using fin True by (simp add: sum.remove)
    have comp: "compatible activities ?S" using less.prems(3) by (rule compatible_subset) blast
    have below: "int j \<le> p" if "j \<in> ?S" for j
    proof (rule ccontr)
      assume "\<not> int j \<le> p"
      from that less.prems(2) have jk: "j < k" by (auto simp: atMost_def)
      with less.prems(1) have mem: "activities ! j \<in> set activities" by simp
      from srt jk less.prems(1) have "end_time (activities ! j) \<le> end_time (activities ! k)"
        by (intro sorted_end_time_mono) auto
      moreover from that True less.prems(3) jk
      have "\<not> acts_overlap (activities ! j) (activities ! k)"
        unfolding compatible_def by blast
      ultimately have "end_time (activities ! j) \<le> start_time (activities ! k)"
        using proper mem by (intro no_overlap_ends_before) auto
      with far[of "int j"] \<open>\<not> int j \<le> p\<close> jk show False by simp
    qed
    show ?thesis
    proof (cases "0 \<le> p")
      case False
      have "?S = {}"
      proof (rule ccontr)
        assume "?S \<noteq> {}"
        then obtain j where "j \<in> ?S" by blast
        from below[OF this] False show False by simp
      qed
      with split dpk False show ?thesis by (simp add: total_value_def)
    next
      case p0: True
      have "?S \<subseteq> {..nat p}"
      proof
        fix j assume "j \<in> ?S"
        from below[OF this] show "j \<in> {..nat p}" by simp
      qed
      moreover from p0 pb have "nat p < k" by simp
      ultimately have "total_value activities ?S \<le> dp ! nat p"
        using less.IH[of "nat p" ?S] comp less.prems(1) by simp
      with split dpk p0 show ?thesis by simp
    qed
  qed
qed

lemma backtrack_selection:
  assumes srt: "sorted (map end_time activities)"
    and filled: "dp_filled activities dp (length activities)"
    and v0: "activities \<noteq> [] \<longrightarrow> 0 \<le> value_act (activities ! 0)"
  shows "- 1 \<le> i \<Longrightarrow> i < int (length activities) \<Longrightarrow>
    \<exists>L. backtrack activities dp i ids = Some (Inr (ids @ map (\<lambda>j. id_act (activities ! j)) L))
       \<and> distinct L \<and> (\<forall>j\<in>set L. int j \<le> i) \<and> compatible activities (set L)
       \<and> total_value activities (set L) = (if 0 \<le> i then dp ! nat i else 0)"
proof (induction "nat (i + 1)" arbitrary: i ids rule: less_induct)
  case less
  from filled have len: "length dp = length activities" unfolding dp_filled_def by blast
  show ?case
  proof (cases "0 \<le> i")
    case False
    then have "backtrack activities dp i ids = Some (Inr ids)"
      by (subst backtrack.simps) simp
    with False show ?thesis
      by (intro exI[of _ "[]"]) (simp add: compatible_def total_value_def)
  next
    case True
    define k where "k = nat i"
    have ik: "i = int k" and k: "k < length activities"
      using True less.prems(2) by (auto simp: k_def)
    have a: "py_index activities i = Inr (activities ! k)"
      using True less.prems(2) by (simp add: py_index_in_range k_def)
    from filled k have "dp_entry activities dp k" unfolding dp_filled_def by blast
    then obtain p where p: "prev activities i = Inr p"
      and dpk: "dp ! k = max (if k = 0 then - 1 else dp ! (k - 1))
                 (value_act (activities ! k) + (if 0 \<le> p then dp ! nat p else 0))"
      unfolding dp_entry_def ik by blast
    from prev_search[OF srt True less.prems(2)] p have pb: "- 1 \<le> p" "p < i"
      and near: "0 \<le> p \<Longrightarrow> end_time (activities ! nat p) \<le> start_time (activities ! k)"
      by (auto simp: k_def)
    have incl: "\<exists>L. backtrack activities dp p (ids @ [id_act (activities ! k)])
          = Some (Inr (ids @ map (\<lambda>j. id_act (activities ! j)) (k # L)))
       \<and> distinct (k # L) \<and> (\<forall>j\<in>set (k # L). int j \<le> i) \<and> compatible activities (set (k # L))
       \<and> total_value activities (set (k # L))
           = value_act (activities ! k) + (if 0 \<le> p then dp ! nat p else 0)"
    proof -
      have "nat (p + 1) < nat (i + 1)" using pb by simp
      from less.hyps[OF this pb(1), of "ids @ [id_act (activities ! k)]"] pb(2) less.prems(2)
      obtain L where L: "backtrack activities dp p (ids @ [id_act (activities ! k)])
            = Some (Inr ((ids @ [id_act (activities ! k)]) @ map (\<lambda>j. id_act (activities ! j)) L))"
        "distinct L" "\<forall>j\<in>set L. int j \<le> p" "compatible activities (set L)"
        "total_value activities (set L) = (if 0 \<le> p then dp ! nat p else 0)"
        by auto
      from L(3) pb(2) have notin: "k \<notin> set L" by (auto simp: ik)
      have apart: "\<not> acts_overlap (activities ! j) (activities ! k)
          \<and> \<not> acts_overlap (activities ! k) (activities ! j)" if "j \<in> set L" for j
      proof -
        from that L(3) have jp: "int j \<le> p" by blast
        then have p0: "0 \<le> p" by simp
        with jp pb(2) less.prems(2) have "j \<le> nat p" "nat p < length activities" by auto
        with srt have "end_time (activities ! j) \<le> end_time (activities ! nat p)"
          by (intro sorted_end_time_mono)
        with near[OF p0] have "end_time (activities ! j) \<le> start_time (activities ! k)" by simp
        then show ?thesis by (rule ends_before_no_overlap)
      qed
      have comp: "compatible activities (set (k # L))"
        using L(4) apart unfolding compatible_def by auto
      have tot: "total_value activities (set (k # L))
          = value_act (activities ! k) + total_value activities (set L)"
        unfolding total_value_def using notin by simp
      show ?thesis
        using L(1,2,3,5) notin comp tot pb(2)
        by (intro exI[of _ L]) (auto simp: ik)
    qed
    show ?thesis
    proof (cases "k = 0")
      case True
      then have i0: "i = 0" by (simp add: ik)
      with pb have pneg: "\<not> 0 \<le> p" by simp
      from True k v0 have "0 \<le> value_act (activities ! k)" by auto
      with dpk True pneg have val: "dp ! nat i = value_act (activities ! k)"
        by (simp add: i0)
      have "backtrack activities dp i ids
          = backtrack activities dp p (ids @ [id_act (activities ! k)])"
        using i0 a p by (subst backtrack.simps) simp
      moreover from incl obtain L where
        "backtrack activities dp p (ids @ [id_act (activities ! k)])
          = Some (Inr (ids @ map (\<lambda>j. id_act (activities ! j)) (k # L)))"
        "distinct (k # L)" "\<forall>j\<in>set (k # L). int j \<le> i" "compatible activities (set (k # L))"
        "total_value activities (set (k # L))
           = value_act (activities ! k) + (if 0 \<le> p then dp ! nat p else 0)"
        by blast
      ultimately show ?thesis using val pneg \<open>0 \<le> i\<close>
        by (intro exI[of _ "k # L"]) (simp del: set_simps distinct.simps list.map)
    next
      case False
      then have ipos: "0 < i" "i \<noteq> 0" by (auto simp: ik)
      have here: "py_index dp i = Inr (dp ! k)"
        using True less.prems(2) len by (simp add: py_index_in_range k_def)
      have bef: "py_index dp (i - 1) = Inr (dp ! (k - 1))"
        using ipos less.prems(2) len by (simp add: py_index_in_range k_def nat_diff_distrib)
      show ?thesis
      proof (cases "dp ! k = dp ! (k - 1)")
        case same: True
        have run: "backtrack activities dp i ids = backtrack activities dp (i - 1) ids"
          using ipos here bef same by (subst backtrack.simps) simp
        have "nat (i - 1 + 1) < nat (i + 1)" using True by simp
        from less.hyps[OF this, of ids] ipos less.prems(2)
        obtain L where L: "backtrack activities dp (i - 1) ids
            = Some (Inr (ids @ map (\<lambda>j. id_act (activities ! j)) L))"
          "distinct L" "\<forall>j\<in>set L. int j \<le> i - 1" "compatible activities (set L)"
          "total_value activities (set L) = dp ! nat (i - 1)"
          by auto
        have "nat (i - 1) = k - 1" by (simp add: k_def nat_diff_distrib)
        with L same run True show ?thesis
          by (intro exI[of _ L]) (auto simp: k_def)
      next
        case diff: False
        have run: "backtrack activities dp i ids
            = backtrack activities dp p (ids @ [id_act (activities ! k)])"
          using ipos here bef diff a p by (subst backtrack.simps) simp
        from dpk False diff have "dp ! k
            = value_act (activities ! k) + (if 0 \<le> p then dp ! nat p else 0)" by simp
        then have val: "dp ! nat i
            = value_act (activities ! k) + (if 0 \<le> p then dp ! nat p else 0)"
          by (simp add: k_def)
        from incl obtain L where
          "backtrack activities dp p (ids @ [id_act (activities ! k)])
            = Some (Inr (ids @ map (\<lambda>j. id_act (activities ! j)) (k # L)))"
          "distinct (k # L)" "\<forall>j\<in>set (k # L). int j \<le> i" "compatible activities (set (k # L))"
          "total_value activities (set (k # L))
             = value_act (activities ! k) + (if 0 \<le> p then dp ! nat p else 0)"
          by blast
        then show ?thesis using run val True
          by (intro exI[of _ "k # L"]) (simp del: set_simps distinct.simps list.map)
      qed
    qed
  qed
qed

text \<open>
  The selection never overlaps: on every input the ids returned are those of activities at
  distinct positions of the sorted list, no two of which overlap.
\<close>

lemma backtrack_compatible:
  assumes srt: "sorted (map end_time activities)"
    and len: "length dp = length activities"
  shows "- 1 \<le> i \<Longrightarrow> i < int (length activities) \<Longrightarrow>
    \<exists>L. backtrack activities dp i ids = Some (Inr (ids @ map (\<lambda>j. id_act (activities ! j)) L))
       \<and> distinct L \<and> (\<forall>j\<in>set L. int j \<le> i) \<and> compatible activities (set L)"
proof (induction "nat (i + 1)" arbitrary: i ids rule: less_induct)
  case less
  show ?case
  proof (cases "0 \<le> i")
    case False
    then have "backtrack activities dp i ids = Some (Inr ids)"
      by (subst backtrack.simps) simp
    then show ?thesis
      by (intro exI[of _ "[]"]) (simp add: compatible_def)
  next
    case True
    define k where "k = nat i"
    have ik: "i = int k" and k: "k < length activities"
      using True less.prems(2) by (auto simp: k_def)
    have a: "py_index activities i = Inr (activities ! k)"
      using True less.prems(2) by (simp add: py_index_in_range k_def)
    from prev_search[OF srt True less.prems(2)] obtain p where
      p: "prev activities i = Inr p" and pb: "- 1 \<le> p" "p < i"
      and near: "0 \<le> p \<longrightarrow> end_time (activities ! nat p) \<le> start_time (activities ! k)"
      unfolding k_def by blast
    have incl: "\<exists>L. backtrack activities dp p (ids @ [id_act (activities ! k)])
          = Some (Inr (ids @ map (\<lambda>j. id_act (activities ! j)) L))
       \<and> distinct L \<and> (\<forall>j\<in>set L. int j \<le> i) \<and> compatible activities (set L)"
    proof -
      have "nat (p + 1) < nat (i + 1)" using pb by simp
      from less.hyps[OF this pb(1), of "ids @ [id_act (activities ! k)]"] pb(2) less.prems(2)
      obtain L where L: "backtrack activities dp p (ids @ [id_act (activities ! k)])
            = Some (Inr ((ids @ [id_act (activities ! k)]) @ map (\<lambda>j. id_act (activities ! j)) L))"
        "distinct L" "\<forall>j\<in>set L. int j \<le> p" "compatible activities (set L)"
        by auto
      from L(3) pb(2) have notin: "k \<notin> set L" by (auto simp: ik)
      have apart: "\<not> acts_overlap (activities ! j) (activities ! k)
          \<and> \<not> acts_overlap (activities ! k) (activities ! j)" if "j \<in> set L" for j
      proof -
        from that L(3) have jp: "int j \<le> p" by blast
        then have p0: "0 \<le> p" by simp
        with jp pb(2) less.prems(2) have "j \<le> nat p" "nat p < length activities" by auto
        with srt have "end_time (activities ! j) \<le> end_time (activities ! nat p)"
          by (intro sorted_end_time_mono)
        with near p0 have "end_time (activities ! j) \<le> start_time (activities ! k)" by simp
        then show ?thesis by (rule ends_before_no_overlap)
      qed
      have comp: "compatible activities (set (k # L))"
        using L(4) apart unfolding compatible_def by auto
      have below: "\<forall>j\<in>set (k # L). int j \<le> i" using L(3) pb(2) by (auto simp: ik)
      have dist: "distinct (k # L)" using L(2) notin by simp
      have "backtrack activities dp p (ids @ [id_act (activities ! k)])
            = Some (Inr (ids @ map (\<lambda>j. id_act (activities ! j)) (k # L)))"
        using L(1) by simp
      with dist below comp show ?thesis by (intro exI[of _ "k # L"] conjI)
    qed
    show ?thesis
    proof (cases "i = 0")
      case True
      have "backtrack activities dp i ids
          = backtrack activities dp p (ids @ [id_act (activities ! k)])"
        using True a p by (subst backtrack.simps) simp
      with incl show ?thesis by simp
    next
      case False
      then have ipos: "0 < i" "i \<noteq> 0" using True by auto
      have here: "py_index dp i = Inr (dp ! k)"
        using True less.prems(2) len by (simp add: py_index_in_range k_def)
      have bef: "py_index dp (i - 1) = Inr (dp ! (k - 1))"
        using ipos less.prems(2) len by (simp add: py_index_in_range k_def nat_diff_distrib)
      show ?thesis
      proof (cases "dp ! k = dp ! (k - 1)")
        case same: True
        have run: "backtrack activities dp i ids = backtrack activities dp (i - 1) ids"
          using ipos here bef same by (subst backtrack.simps) simp
        have "nat (i - 1 + 1) < nat (i + 1)" using True by simp
        from less.hyps[OF this, of ids] ipos less.prems(2)
        obtain L where L: "backtrack activities dp (i - 1) ids
            = Some (Inr (ids @ map (\<lambda>j. id_act (activities ! j)) L))"
          "distinct L" "\<forall>j\<in>set L. int j \<le> i - 1" "compatible activities (set L)"
          by auto
        from L(3) have "\<forall>j\<in>set L. int j \<le> i" by auto
        with L(1,2,4) run show ?thesis by (intro exI[of _ L] conjI) simp_all
      next
        case diff: False
        have run: "backtrack activities dp i ids
            = backtrack activities dp p (ids @ [id_act (activities ! k)])"
          using ipos here bef diff a p by (subst backtrack.simps) simp
        with incl show ?thesis by simp
      qed
    qed
  qed
qed

lemma selection_never_overlaps:
  "\<exists>L. weighted_scheduling activities0
            = Some (sort_key end_time activities0,
                    Inr (map (\<lambda>j. id_act (sort_key end_time activities0 ! j)) L))
       \<and> distinct L \<and> set L \<subseteq> {..<length activities0}
       \<and> compatible (sort_key end_time activities0) (set L)"
proof -
  define acts where "acts = sort_key end_time activities0"
  have len: "length acts = length activities0" by (simp add: acts_def)
  have srt: "sorted (map end_time acts)" by (simp add: acts_def)
  from dp_table_filled[of acts] obtain dp where
    dp: "dp_table_of acts (length acts) = Inr dp" "dp_filled acts dp (length acts)" by blast
  from dp(2) have dlen: "length dp = length acts" by (simp add: dp_filled_def)
  from backtrack_compatible[OF srt dlen, of "int (length acts) - 1" "[]"]
  obtain L where L: "backtrack acts dp (int (length acts) - 1) []
        = Some (Inr (map (\<lambda>j. id_act (acts ! j)) L))"
    "distinct L" "\<forall>j\<in>set L. int j \<le> int (length acts) - 1" "compatible acts (set L)"
    by auto
  have run: "weighted_scheduling activities0 = Some (acts, Inr (map (\<lambda>j. id_act (acts ! j)) L))"
    using dp(1) L(1) by (simp add: weighted_scheduling_def Let_def acts_def[symmetric] len)
  have inrange: "set L \<subseteq> {..<length activities0}" using L(3) len by auto
  show ?thesis
    unfolding acts_def[symmetric] using run L(2,4) inrange by blast
qed

text \<open>
  The selection is of maximum value when every activity starts before it ends and the
  first activity of the sorted list has a value that is not negative: then no compatible
  selection has a greater sum of values.
\<close>

lemma optimal_on_proper_inputs:
  assumes proper: "\<forall>a\<in>set activities0. start_time a < end_time a"
    and v0: "\<forall>a\<in>set (take 1 (sort_key end_time activities0)). 0 \<le> value_act a"
  shows "\<exists>L. weighted_scheduling activities0
            = Some (sort_key end_time activities0,
                    Inr (map (\<lambda>j. id_act (sort_key end_time activities0 ! j)) L))
       \<and> distinct L \<and> set L \<subseteq> {..<length activities0}
       \<and> compatible (sort_key end_time activities0) (set L)
       \<and> (\<forall>S. S \<subseteq> {..<length activities0} \<and> compatible (sort_key end_time activities0) S
            \<longrightarrow> total_value (sort_key end_time activities0) S
                  \<le> total_value (sort_key end_time activities0) (set L))"
proof -
  define acts where "acts = sort_key end_time activities0"
  have len: "length acts = length activities0" by (simp add: acts_def)
  have srt: "sorted (map end_time acts)" by (simp add: acts_def)
  have proper': "\<forall>a\<in>set acts. start_time a < end_time a" using proper by (simp add: acts_def)
  have v0': "acts \<noteq> [] \<longrightarrow> 0 \<le> value_act (acts ! 0)"
    using v0 unfolding acts_def[symmetric] by (cases acts) auto
  from dp_table_filled[of acts] obtain dp where
    dp: "dp_table_of acts (length acts) = Inr dp" "dp_filled acts dp (length acts)" by blast
  from backtrack_selection[OF srt dp(2) v0', of "int (length acts) - 1" "[]"]
  obtain L where L: "backtrack acts dp (int (length acts) - 1) []
        = Some (Inr (map (\<lambda>j. id_act (acts ! j)) L))"
    "distinct L" "\<forall>j\<in>set L. int j \<le> int (length acts) - 1" "compatible acts (set L)"
    "total_value acts (set L)
       = (if 0 \<le> int (length acts) - 1 then dp ! nat (int (length acts) - 1) else 0)"
    by auto
  have run: "weighted_scheduling activities0 = Some (acts, Inr (map (\<lambda>j. id_act (acts ! j)) L))"
    using dp(1) L(1) by (simp add: weighted_scheduling_def Let_def acts_def[symmetric] len)
  have inrange: "set L \<subseteq> {..<length activities0}" using L(3) len by auto
  have best: "total_value acts S \<le> total_value acts (set L)"
    if S: "S \<subseteq> {..<length activities0}" "compatible acts S" for S
  proof (cases "length acts = 0")
    case True
    with S(1) len have "S = {}" by auto
    moreover from True L(3) have "set L = {}" by auto
    ultimately show ?thesis by simp
  next
    case False
    then have n: "length acts - 1 < length acts" by simp
    from S(1) len have "S \<subseteq> {..length acts - 1}" by (auto simp: atMost_def lessThan_def)
    from dp_upper_bound[OF srt proper' dp(2) v0' n this S(2)]
    have "total_value acts S \<le> dp ! (length acts - 1)" .
    moreover from False have "nat (int (length acts) - 1) = length acts - 1" by simp
    ultimately show ?thesis using L(5) False by simp
  qed
  show ?thesis
    unfolding acts_def[symmetric] using run L(2,4) inrange best by blast
qed

lemma optimal_on_proper_inputs_example:
  "list_all (\<lambda>a. start_time a < end_time a)
     [valued_act 1 0 5 5, valued_act 2 3 8 6, valued_act 3 6 10 5]
   \<and> list_all (\<lambda>a. 0 \<le> value_act a)
     (take 1 (sort_key end_time [valued_act 1 0 5 5, valued_act 2 3 8 6, valued_act 3 6 10 5]))
   \<and> weighted_scheduling [valued_act 1 0 5 5, valued_act 2 3 8 6, valued_act 3 6 10 5]
       = Some ([valued_act 1 0 5 5, valued_act 2 3 8 6, valued_act 3 6 10 5], Inr [3, 1])
   \<and> compatible [valued_act 1 0 5 5, valued_act 2 3 8 6, valued_act 3 6 10 5] {0, 2}
   \<and> total_value [valued_act 1 0 5 5, valued_act 2 3 8 6, valued_act 3 6 10 5] {0, 2} = 10
   \<and> (\<exists>L. map (\<lambda>j. id_act ([valued_act 1 0 5 5, valued_act 2 3 8 6, valued_act 3 6 10 5] ! j)) L
            = [3, 1]
          \<and> 10 \<le> total_value [valued_act 1 0 5 5, valued_act 2 3 8 6, valued_act 3 6 10 5] (set L))"
proof -
  define input where
    "input = [valued_act 1 0 5 5, valued_act 2 3 8 6, valued_act 3 6 10 5]"
  have srt: "sort_key end_time input = input"
    by (simp add: input_def valued_act_def)
  have proper: "\<forall>a\<in>set input. start_time a < end_time a"
    by (simp add: input_def valued_act_def)
  have v0: "\<forall>a\<in>set (take 1 (sort_key end_time input)). 0 \<le> value_act a"
    by (simp add: input_def valued_act_def)
  have run: "weighted_scheduling input = Some (input, Inr [3, 1])"
    by (simp add: input_def weighted_scheduling_def dp_table_of_def range_n_def dp_step_def
        prev_def prev_loop_exit prev_loop_iterate py_index_def py_setitem_def
        resolve_index_def valued_act_def backtrack.simps)
  have comp: "compatible input {0, 2}"
    by (simp add: input_def compatible_def acts_overlap_def intervals_overlap_iff
        valued_act_def)
  have tot: "total_value input {0, 2} = 10"
    by (simp add: input_def total_value_def valued_act_def)
  have sub: "{0, 2} \<subseteq> {..<length input}" by (simp add: input_def)
  from optimal_on_proper_inputs[OF proper v0] obtain L where
    L: "weighted_scheduling input
          = Some (sort_key end_time input,
                  Inr (map (\<lambda>j. id_act (sort_key end_time input ! j)) L))"
    and best: "\<forall>S. S \<subseteq> {..<length input} \<and> compatible (sort_key end_time input) S
            \<longrightarrow> total_value (sort_key end_time input) S
                  \<le> total_value (sort_key end_time input) (set L)"
    by blast
  from L run srt have ids: "map (\<lambda>j. id_act (input ! j)) L = [3, 1]" by simp
  from best sub comp srt have "total_value input {0, 2} \<le> total_value input (set L)" by simp
  with tot have "10 \<le> total_value input (set L)" by simp
  with ids have "\<exists>L. map (\<lambda>j. id_act (input ! j)) L = [3, 1] \<and> 10 \<le> total_value input (set L)"
    by (intro exI[of _ L] conjI)
  moreover have "list_all (\<lambda>a. start_time a < end_time a) input"
    using proper by (simp add: list_all_iff)
  moreover have "list_all (\<lambda>a. 0 \<le> value_act a) (take 1 (sort_key end_time input))"
    using v0 by (simp add: list_all_iff)
  ultimately show ?thesis
    using run comp tot unfolding input_def by (intro conjI)
qed

text \<open>
  An activity of an empty interval is outside that statement: the predecessor test
  \<open>end_time <= start_time\<close> is the test of non-overlap only between intervals that start
  before they end.
\<close>

lemma empty_interval_example:
  "weighted_scheduling [valued_act 1 5 5 1, valued_act 2 3 5 1]
       = Some ([valued_act 1 5 5 1, valued_act 2 3 5 1], Inr [1])
   \<and> compatible [valued_act 1 5 5 1, valued_act 2 3 5 1] {0, 1}
   \<and> total_value [valued_act 1 5 5 1, valued_act 2 3 5 1] {0} = 1
   \<and> total_value [valued_act 1 5 5 1, valued_act 2 3 5 1] {0, 1} = 2"
proof -
  have "weighted_scheduling [valued_act 1 5 5 1, valued_act 2 3 5 1]
       = Some ([valued_act 1 5 5 1, valued_act 2 3 5 1], Inr [1])"
    by (simp add: weighted_scheduling_def dp_table_of_def range_n_def dp_step_def prev_def
        prev_loop_exit prev_loop_iterate py_index_def py_setitem_def resolve_index_def
        valued_act_def backtrack.simps)
  moreover have "compatible [valued_act 1 5 5 1, valued_act 2 3 5 1] {0, 1}"
    by (simp add: compatible_def acts_overlap_def intervals_overlap_iff valued_act_def)
  moreover have "total_value [valued_act 1 5 5 1, valued_act 2 3 5 1] {0} = 1"
    "total_value [valued_act 1 5 5 1, valued_act 2 3 5 1] {0, 1} = 2"
    by (simp_all add: total_value_def valued_act_def)
  ultimately show ?thesis by (intro conjI)
qed

text \<open>
  C1. The ids returned are claimed to be those of a non-overlapping selection of maximum
  summed value, whatever the signs of the values. At \<open>i = 0\<close> the table takes
  \<open>max(dp_table[-1], value)\<close> with \<open>dp_table[-1]\<close> the initial \<open>-1\<close>, and the backtracking
  selects position 0 whenever it reaches it. On the single activity of value \<open>-5\<close> the
  scheduler returns its id, a selection of sum \<open>-5\<close>, and the empty selection has the sum
  0. On the activity 0 to 5 of value \<open>-1\<close> followed by the activity 5 to 9 of value 3 it
  returns both ids, a selection of sum 2, and the second activity alone has the sum 3.
\<close>

theorem weighted_scheduling_negative_value:
  "weighted_scheduling [valued_act 1 0 5 (- 5)] = Some ([valued_act 1 0 5 (- 5)], Inr [1])
   \<and> total_value [valued_act 1 0 5 (- 5)] {0} = - 5
   \<and> total_value [valued_act 1 0 5 (- 5)] {} = 0
   \<and> weighted_scheduling [valued_act 1 0 5 (- 1), valued_act 2 5 9 3]
       = Some ([valued_act 1 0 5 (- 1), valued_act 2 5 9 3], Inr [2, 1])
   \<and> total_value [valued_act 1 0 5 (- 1), valued_act 2 5 9 3] {1, 0} = 2
   \<and> total_value [valued_act 1 0 5 (- 1), valued_act 2 5 9 3] {1} = 3"
proof -
  have "weighted_scheduling [valued_act 1 0 5 (- 5)] = Some ([valued_act 1 0 5 (- 5)], Inr [1])"
    by (simp add: weighted_scheduling_def dp_table_of_def range_n_def dp_step_def prev_def
        prev_loop_exit py_index_def py_setitem_def resolve_index_def valued_act_def
        backtrack.simps)
  moreover have "total_value [valued_act 1 0 5 (- 5)] {0} = - 5"
    "total_value [valued_act 1 0 5 (- 5)] {} = 0"
    by (simp_all add: total_value_def valued_act_def)
  moreover have "weighted_scheduling [valued_act 1 0 5 (- 1), valued_act 2 5 9 3]
       = Some ([valued_act 1 0 5 (- 1), valued_act 2 5 9 3], Inr [2, 1])"
    by (simp add: weighted_scheduling_def dp_table_of_def range_n_def dp_step_def prev_def
        prev_loop_exit prev_loop_iterate py_index_def py_setitem_def resolve_index_def
        valued_act_def backtrack.simps)
  moreover have "total_value [valued_act 1 0 5 (- 1), valued_act 2 5 9 3] {1, 0} = 2"
    "total_value [valued_act 1 0 5 (- 1), valued_act 2 5 9 3] {1} = 3"
    by (simp_all add: total_value_def valued_act_def)
  ultimately show ?thesis by (intro conjI)
qed

end
